theory Spec2Isabelle
  imports Main "HOL-Library.Word"
begin

section \<open>Data model\<close>

text \<open>
  The Go program keeps pointers to URL objects (\<^verbatim>\<open>*url.URL\<close>). Two things are observed
  of such a pointer: its identity (the key of \<^verbatim>\<open>map[*url.URL]struct{}\<close>) and the value of
  \<^verbatim>\<open>u.String()\<close> (what \<^verbatim>\<open>RemoveURL\<close> compares and what a request is sent to). The
  program never writes to a URL object, so a pointer is modelled as the address of the
  object together with the string the object prints as. Two pointers are the same key
  when they are the same record; a heap has one object per address.
\<close>

record url =
  addr :: nat
  str :: string

text \<open>
  What the program does to the outside world and to its mutex, in order:
  \<^verbatim>\<open>r.lock.Lock()\<close>, \<^verbatim>\<open>r.lock.Unlock()\<close>, and an HTTP round trip
  (\<^verbatim>\<open>http.DefaultClient.Do\<close>, \<^verbatim>\<open>http.Get\<close>) to a URL string.
\<close>

datatype event = Lock | Unlock | Do string

text \<open>
  \<^verbatim>\<open>RoundRobinBalancer\<close>: the fields \<^verbatim>\<open>activeUrls\<close>, \<^verbatim>\<open>removedUrls\<close> (the key set of
  the map) and \<^verbatim>\<open>currentIndex\<close> (a \<^verbatim>\<open>uint64\<close>, so \<open>+\<close> wraps at \<open>2 ^ 64\<close>). The
  field \<^verbatim>\<open>lock\<close> is represented by the \<open>Lock\<close> and \<open>Unlock\<close> events of the history
  \<open>events\<close>; \<open>next_addr\<close> is the address the next allocated URL object gets.
\<close>

record balancer =
  activeUrls :: "url list"
  removedUrls :: "url set"
  currentIndex :: "64 word"
  events :: "event list"
  next_addr :: nat

text \<open>Run-time panics of Go that the selection code could raise.\<close>

datatype panic = DivideByZero | IndexOutOfRange

text \<open>
  The answer of the network to one round trip: a transport error (\<^verbatim>\<open>err != nil\<close>), or a
  response with its status code and its body (\<open>None\<close> when \<^verbatim>\<open>io.ReadAll\<close> fails).
  The network is an oracle: the answer depends on the moment of the request (the number
  of events before it) and on the URL string requested.
\<close>

datatype response = TransportError | Response int "string option"

type_synonym network = "nat \<Rightarrow> string \<Rightarrow> response"

text \<open>How one dispatch call ends.\<close>

datatype outcome =
    Panicked panic
  | NoActiveServers
  | RequestError
  | TransportFailure
  | ReadError
  | NonSuccessStatus int
  | Responded string

section \<open>Library operations\<close>

text \<open>
  \<^verbatim>\<open>a % b\<close> on unsigned integers panics when \<open>b\<close> is zero. The divisor is
  \<^verbatim>\<open>uint64(len(s))\<close>, the exact value of a length, so the remainder is taken on the
  unsigned values.
\<close>

definition umod :: "64 word \<Rightarrow> nat \<Rightarrow> panic + nat" where
  "umod a n = (if n = 0 then Inl DivideByZero else Inr (unat a mod n))"

text \<open>\<^verbatim>\<open>s[i]\<close> panics when \<open>i\<close> is not below \<^verbatim>\<open>len(s)\<close>.\<close>

definition slice_index :: "'a list \<Rightarrow> nat \<Rightarrow> panic + 'a" where
  "slice_index s i = (if i < length s then Inr (s ! i) else Inl IndexOutOfRange)"

text \<open>
  \<^verbatim>\<open>url.Parse\<close> is library code, taken as two parameters: \<open>parses\<close> says which
  strings it accepts, and \<open>prints s\<close> is what \<^verbatim>\<open>String()\<close> of the URL parsed from \<open>s\<close>
  gives. The two strings can differ: \<^verbatim>\<open>url.Parse\<close> lower-cases the scheme, so a URL built
  with the scheme \<^verbatim>\<open>HTTP\<close> prints with \<^verbatim>\<open>HTTP\<close> and its re-parsed copy with \<^verbatim>\<open>http\<close>.
  On success a new URL object is allocated (at address \<open>a\<close>).
\<close>

definition url_Parse ::
    "(string \<Rightarrow> bool) \<Rightarrow> (string \<Rightarrow> string) \<Rightarrow> nat \<Rightarrow> string \<Rightarrow> url option" where
  "url_Parse parses prints a s =
     (if parses s then Some \<lparr>addr = a, str = prints s\<rparr> else None)"

text \<open>
  \<^verbatim>\<open>http.NewRequestWithContext(context.Background(), http.MethodGet, s, nil)\<close> fails
  exactly when \<^verbatim>\<open>url.Parse(s)\<close> does; the request is identified with the string \<open>s\<close>
  it is created from.
\<close>

definition NewRequest :: "(string \<Rightarrow> bool) \<Rightarrow> string \<Rightarrow> string option" where
  "NewRequest parses s = (if parses s then Some s else None)"

text \<open>One round trip: the oracle answers, and the history records the request.\<close>

definition client_Do :: "network \<Rightarrow> string \<Rightarrow> balancer \<Rightarrow> response \<times> balancer" where
  "client_Do net req r = (net (length (events r)) req, r\<lparr>events := events r @ [Do req]\<rparr>)"

definition lock_Lock :: "balancer \<Rightarrow> balancer" where
  "lock_Lock r = r\<lparr>events := events r @ [Lock]\<rparr>"

definition lock_Unlock :: "balancer \<Rightarrow> balancer" where
  "lock_Unlock r = r\<lparr>events := events r @ [Unlock]\<rparr>"

section \<open>The balancer\<close>

subsection \<open>NewRoundRobinBalancer\<close>

text \<open>
  The loop of \<^verbatim>\<open>NewRoundRobinBalancer\<close> (the same in every copy): each backend is
  parsed again from its string; a failure is logged and the backend is skipped.
\<close>

fun new_range ::
    "(string \<Rightarrow> bool) \<Rightarrow> (string \<Rightarrow> string) \<Rightarrow> url list \<Rightarrow> url list \<Rightarrow> nat \<Rightarrow>
     url list \<times> nat" where
  "new_range parses prints [] active a = (active, a)"
| "new_range parses prints (backendsURL # rest) active a =
     (case url_Parse parses prints a (str backendsURL) of
        None \<Rightarrow> new_range parses prints rest active a
      | Some parsedURL \<Rightarrow> new_range parses prints rest (active @ [parsedURL]) (Suc a))"

definition NewRoundRobinBalancer ::
    "(string \<Rightarrow> bool) \<Rightarrow> (string \<Rightarrow> string) \<Rightarrow> nat \<Rightarrow> url list \<Rightarrow> balancer" where
  "NewRoundRobinBalancer parses prints a backendUrls =
     \<lparr>activeUrls = fst (new_range parses prints backendUrls [] a),
      removedUrls = {},
      currentIndex = 0,
      events = [],
      next_addr = snd (new_range parses prints backendUrls [] a)\<rparr>"

subsection \<open>GetNextURL\<close>

text \<open>
  \<^verbatim>\<open>GetNextURL\<close> of loadbalance.go (lines 39 to 53): the index is read before it is
  incremented. The deferred \<^verbatim>\<open>Unlock\<close> runs on return.
\<close>

definition GetNextURL :: "balancer \<Rightarrow> panic + (url option \<times> balancer)" where
  "GetNextURL r =
     (let r1 = lock_Lock r in
      if length (activeUrls r1) = 0 then Inr (None, lock_Unlock r1)
      else
        (case umod (currentIndex r1) (length (activeUrls r1)) of
           Inl p \<Rightarrow> Inl p
         | Inr i \<Rightarrow>
            (case slice_index (activeUrls r1) i of
               Inl p \<Rightarrow> Inl p
             | Inr u \<Rightarrow>
                Inr (Some u, lock_Unlock (r1\<lparr>currentIndex := currentIndex r1 + 1\<rparr>)))))"

text \<open>
  \<^verbatim>\<open>GetNextURL\<close> of main.go (lines 40 to 50, and again lines 201 to 211):
  \<^verbatim>\<open>atomic.AddUint64\<close> returns the new value, and the index is taken from it.
\<close>

definition GetNextURL_main :: "balancer \<Rightarrow> panic + (url option \<times> balancer)" where
  "GetNextURL_main r =
     (let r1 = lock_Lock r in
      if length (activeUrls r1) = 0 then Inr (None, lock_Unlock r1)
      else
        (let r2 = r1\<lparr>currentIndex := currentIndex r1 + 1\<rparr>;
             index = currentIndex r2 in
         case umod index (length (activeUrls r2)) of
           Inl p \<Rightarrow> Inl p
         | Inr i \<Rightarrow>
            (case slice_index (activeUrls r2) i of
               Inl p \<Rightarrow> Inl p
             | Inr u \<Rightarrow> Inr (Some u, lock_Unlock r2))))"

subsection \<open>RemoveURL\<close>

text \<open>
  The \<^verbatim>\<open>for i, u := range r.activeUrls\<close> loop of \<^verbatim>\<open>RemoveURL\<close>: the first entry whose
  string equals the argument's is cut out, and the loop breaks.
\<close>

fun remove_first :: "string \<Rightarrow> url list \<Rightarrow> url list" where
  "remove_first s [] = []"
| "remove_first s (u # us) = (if str u = s then us else u # remove_first s us)"

text \<open>
  \<^verbatim>\<open>RemoveURL\<close> (the same in every copy): the argument becomes a key of
  \<^verbatim>\<open>removedUrls\<close> first, whatever \<^verbatim>\<open>activeUrls\<close> holds.
\<close>

definition RemoveURL :: "url \<Rightarrow> balancer \<Rightarrow> balancer" where
  "RemoveURL urlToRemove r =
     (let r1 = lock_Lock r;
          r2 = r1\<lparr>removedUrls := insert urlToRemove (removedUrls r1)\<rparr>;
          r3 = r2\<lparr>activeUrls := remove_first (str urlToRemove) (activeUrls r2)\<rparr>
      in lock_Unlock r3)"

subsection \<open>CheckAndRestoreUrls\<close>

text \<open>
  The body of the \<^verbatim>\<open>for urlStr := range r.removedUrls\<close> loop of loadbalance.go
  (lines 72 to 93) and of main.go (lines 69 to 90), for one key: a request that cannot
  be created, a transport error, a status other than 200 and a string that does not
  parse all leave the key where it is; otherwise a newly parsed URL is appended to
  \<^verbatim>\<open>activeUrls\<close> and the key is deleted.
\<close>

definition restore_body :: 
    "(string \<Rightarrow> bool) \<Rightarrow> (string \<Rightarrow> string) \<Rightarrow> network \<Rightarrow> url \<Rightarrow> balancer \<Rightarrow> balancer" where
  "restore_body parses prints net urlStr r =
     (case NewRequest parses (str urlStr) of
        None \<Rightarrow> r
      | Some req \<Rightarrow>
         (case client_Do net req r of
            (TransportError, r1) \<Rightarrow> r1
          | (Response status body, r1) \<Rightarrow>
             if status = 200 then
               (case url_Parse parses prints (next_addr r1) (str urlStr) of
                  None \<Rightarrow> r1
                | Some parsedURL \<Rightarrow>
                   r1\<lparr>activeUrls := activeUrls r1 @ [parsedURL],
                      removedUrls := removedUrls r1 - {urlStr},
                      next_addr := Suc (next_addr r1)\<rparr>)
             else r1))"

text \<open>
  The loop itself. Go visits the keys of a map in an unspecified order; the list
  \<open>keys\<close> is the order of this run. Only the key being visited is deleted, so every
  key is visited once.
\<close>

fun restore_range ::
    "(string \<Rightarrow> bool) \<Rightarrow> (string \<Rightarrow> string) \<Rightarrow> network \<Rightarrow> url list \<Rightarrow>
     balancer \<Rightarrow> balancer" where
  "restore_range parses prints net [] r = r"
| "restore_range parses prints net (urlStr # keys) r =
     restore_range parses prints net keys (restore_body parses prints net urlStr r)"

definition CheckAndRestoreUrls ::
    "(string \<Rightarrow> bool) \<Rightarrow> (string \<Rightarrow> string) \<Rightarrow> network \<Rightarrow> url list \<Rightarrow>
     balancer \<Rightarrow> balancer" where
  "CheckAndRestoreUrls parses prints net keys r =
     lock_Unlock (restore_range parses prints net keys (lock_Lock r))"

text \<open>
  The loop body of the older copy, main.go lines 230 to 237: \<^verbatim>\<open>http.Get\<close> fails when
  the string does not parse or the transport fails; the response itself is dropped
  (\<^verbatim>\<open>_, err := http.Get(...)\<close>), and the error of \<^verbatim>\<open>url.Parse\<close> is ignored, which can
  only succeed here because \<^verbatim>\<open>http.Get\<close> parsed the same string (the inner \<open>None\<close>
  branch is never taken).
\<close>

definition restore_body_old :: 
    "(string \<Rightarrow> bool) \<Rightarrow> (string \<Rightarrow> string) \<Rightarrow> network \<Rightarrow> url \<Rightarrow> balancer \<Rightarrow> balancer" where
  "restore_body_old parses prints net urlStr r =
     (case NewRequest parses (str urlStr) of
        None \<Rightarrow> r
      | Some req \<Rightarrow>
         (case client_Do net req r of
            (TransportError, r1) \<Rightarrow> r1
          | (Response status body, r1) \<Rightarrow>
             (case url_Parse parses prints (next_addr r1) (str urlStr) of
                None \<Rightarrow> r1
              | Some parsedUrl \<Rightarrow>
                 r1\<lparr>activeUrls := activeUrls r1 @ [parsedUrl],
                    removedUrls := removedUrls r1 - {urlStr},
                    next_addr := Suc (next_addr r1)\<rparr>)))"

fun restore_range_old ::
    "(string \<Rightarrow> bool) \<Rightarrow> (string \<Rightarrow> string) \<Rightarrow> network \<Rightarrow> url list \<Rightarrow>
     balancer \<Rightarrow> balancer" where
  "restore_range_old parses prints net [] r = r"
| "restore_range_old parses prints net (urlStr # keys) r =
     restore_range_old parses prints net keys (restore_body_old parses prints net urlStr r)"

definition CheckAndRestoreUrls_old ::
    "(string \<Rightarrow> bool) \<Rightarrow> (string \<Rightarrow> string) \<Rightarrow> network \<Rightarrow> url list \<Rightarrow>
     balancer \<Rightarrow> balancer" where
  "CheckAndRestoreUrls_old parses prints net keys r =
     lock_Unlock (restore_range_old parses prints net keys (lock_Lock r))"

section \<open>The dispatcher\<close>

text \<open>
  The body of \<^verbatim>\<open>SendRequest\<close> (loadbalance.go lines 96 to 132) and of \<^verbatim>\<open>sendRequest\<close>
  (main.go lines 93 to 129): the two are the same text, each calling the
  \<^verbatim>\<open>GetNextURL\<close> of its own file, the parameter \<open>next\<close>. A transport error removes the
  server and jumps back to the label; status 200 reads the body and leaves the loop; any
  other status closes the body and falls through to the end of the \<^verbatim>\<open>for\<close> body, which
  starts the next iteration. The loop may run forever: then the value is \<open>None\<close>.
\<close>

partial_function (option) dispatch_loop ::
    "(balancer \<Rightarrow> panic + (url option \<times> balancer)) \<Rightarrow> (string \<Rightarrow> bool) \<Rightarrow> network \<Rightarrow>
     balancer \<Rightarrow> (outcome \<times> balancer) option" where
  "dispatch_loop next parses net r =
     (case next r of
        Inl p \<Rightarrow> Some (Panicked p, r)
      | Inr (None, r1) \<Rightarrow> Some (NoActiveServers, r1)
      | Inr (Some serverURL, r1) \<Rightarrow>
         (case NewRequest parses (str serverURL) of
            None \<Rightarrow> Some (RequestError, r1)
          | Some req \<Rightarrow>
             (case client_Do net req r1 of
                (TransportError, r2) \<Rightarrow>
                  dispatch_loop next parses net (RemoveURL serverURL r2)
              | (Response status body, r2) \<Rightarrow>
                  if status = 200 then
                    (case body of
                       None \<Rightarrow> Some (ReadError, r2)
                     | Some b \<Rightarrow> Some (Responded b, r2))
                  else dispatch_loop next parses net r2)))"

definition SendRequest :: "(string \<Rightarrow> bool) \<Rightarrow> network \<Rightarrow> balancer \<Rightarrow> (outcome \<times> balancer) option" where
  "SendRequest = dispatch_loop GetNextURL"

definition sendRequest :: "(string \<Rightarrow> bool) \<Rightarrow> network \<Rightarrow> balancer \<Rightarrow> (outcome \<times> balancer) option" where
  "sendRequest = dispatch_loop GetNextURL_main"

text \<open>
  \<^verbatim>\<open>sendRequest\<close> of the older copy (main.go lines 240 to 267): no loop. An error of
  \<^verbatim>\<open>http.Get\<close> (the string does not parse, or the transport fails) removes the server
  and returns; a status other than 200 is logged and returns.
\<close>

definition sendRequest_old :: "(string \<Rightarrow> bool) \<Rightarrow> network \<Rightarrow> balancer \<Rightarrow> outcome \<times> balancer" where
  "sendRequest_old parses net r =
     (case GetNextURL_main r of
        Inl p \<Rightarrow> (Panicked p, r)
      | Inr (None, r1) \<Rightarrow> (NoActiveServers, r1)
      | Inr (Some serverURL, r1) \<Rightarrow>
         (case NewRequest parses (str serverURL) of
            None \<Rightarrow> (TransportFailure, RemoveURL serverURL r1)
          | Some req \<Rightarrow>
             (case client_Do net req r1 of
                (TransportError, r2) \<Rightarrow> (TransportFailure, RemoveURL serverURL r2)
              | (Response status body, r2) \<Rightarrow>
                  if status \<noteq> 200 then (NonSuccessStatus status, r2)
                  else
                    (case body of
                       None \<Rightarrow> (ReadError, r2)
                     | Some b \<Rightarrow> (Responded b, r2)))))"

section \<open>Properties of the registry\<close>

text \<open>
  What the specification asks of a registry at every observation point: no two entries
  of the active sequence have the same string, and no active entry has the string of a
  removed one.
\<close>

definition registry_ok :: "balancer \<Rightarrow> bool" where
  "registry_ok r \<longleftrightarrow>
     distinct (map str (activeUrls r)) \<and> str ` set (activeUrls r) \<inter> str ` removedUrls r = {}"

text \<open>
  Every endpoint of the registry prints as a string that \<^verbatim>\<open>url.Parse\<close> reproduces:
  parsing the string and printing the result gives the string back.
\<close>

definition stable :: "(string \<Rightarrow> string) \<Rightarrow> balancer \<Rightarrow> bool" where
  "stable prints r \<longleftrightarrow> (\<forall>u \<in> set (activeUrls r) \<union> removedUrls r. prints (str u) = str u)"

text \<open>
  What the operations keep: the property asked for, no two keys of the removed map with
  the same string, and strings that \<^verbatim>\<open>url.Parse\<close> reproduces.
\<close>

definition registry_inv :: "(string \<Rightarrow> string) \<Rightarrow> balancer \<Rightarrow> bool" where
  "registry_inv prints r \<longleftrightarrow>
     registry_ok r \<and> inj_on str (removedUrls r) \<and> stable prints r"

text \<open>
  The registries that a run reaches when the entries of the freshly constructed registry
  print as pairwise different strings that \<^verbatim>\<open>url.Parse\<close> reproduces, and
  \<^verbatim>\<open>RemoveURL\<close> is only given endpoints that print as such a string and is never given
  a second object for a string that the removed map already holds. \<open>keys\<close> is the
  order in which a run of \<^verbatim>\<open>CheckAndRestoreUrls\<close> visits the removed map. A dispatch
  call that returns is a step as well: the endpoints it removes are the ones
  \<^verbatim>\<open>GetNextURL\<close> gave it.
\<close>

inductive reach :: "(string \<Rightarrow> bool) \<Rightarrow> (string \<Rightarrow> string) \<Rightarrow> balancer \<Rightarrow> bool"
  for parses prints where
  reach_new: "r = NewRoundRobinBalancer parses prints a backendUrls \<Longrightarrow>
     distinct (map str (activeUrls r)) \<Longrightarrow> stable prints r \<Longrightarrow> reach parses prints r"
| reach_next: "reach parses prints r \<Longrightarrow> GetNextURL r = Inr (res, r') \<Longrightarrow>
     reach parses prints r'"
| reach_remove: "reach parses prints r \<Longrightarrow>
     u \<in> removedUrls r \<or> str u \<notin> str ` removedUrls r \<Longrightarrow> prints (str u) = str u \<Longrightarrow>
     reach parses prints (RemoveURL u r)"
| reach_restore: "reach parses prints r \<Longrightarrow> set keys = removedUrls r \<Longrightarrow> distinct keys \<Longrightarrow>
     reach parses prints (CheckAndRestoreUrls parses prints net keys r)"
| reach_dispatch: "reach parses prints r \<Longrightarrow> SendRequest parses net r = Some (out, r') \<Longrightarrow>
     reach parses prints r'"

text \<open>
  \<open>n\<close> consecutive \<^verbatim>\<open>GetNextURL\<close> calls (loadbalance.go) with nothing in between: the
  results in order, and the registry afterwards. A panic would end the program.
\<close>

fun next_calls :: "nat \<Rightarrow> balancer \<Rightarrow> url option list \<times> balancer" where
  "next_calls 0 r = ([], r)"
| "next_calls (Suc n) r =
     (case GetNextURL r of
        Inl p \<Rightarrow> ([], r)
      | Inr (res, r1) \<Rightarrow> (res # fst (next_calls n r1), snd (next_calls n r1)))"

text \<open>How many of the results are the endpoint \<open>u\<close>, endpoints compared by their strings.\<close>

definition times_returned :: "url \<Rightarrow> url option list \<Rightarrow> nat" where
  "times_returned u results = length (filter (\<lambda>res. map_option str res = Some (str u)) results)"

text \<open>
  The lock as a history leaves it: held after \<open>Lock\<close>, free after \<open>Unlock\<close>.
\<close>

fun held_after :: "bool \<Rightarrow> event list \<Rightarrow> bool" where
  "held_after held [] = held"
| "held_after held (Lock # es) = held_after True es"
| "held_after held (Unlock # es) = held_after False es"
| "held_after held (Do s # es) = held_after held es"

text \<open>
  No HTTP round trip of the history happens while the lock is held (\<open>held\<close> says
  whether it is held at the start).
\<close>

fun io_outside_lock :: "bool \<Rightarrow> event list \<Rightarrow> bool" where
  "io_outside_lock held [] = True"
| "io_outside_lock held (Lock # es) = io_outside_lock True es"
| "io_outside_lock held (Unlock # es) = io_outside_lock False es"
| "io_outside_lock held (Do s # es) = (\<not> held \<and> io_outside_lock held es)"

text \<open>
  What the dispatcher relies on in a selection function, and both copies of
  \<^verbatim>\<open>GetNextURL\<close> provide: on an empty active sequence it returns nil, otherwise an entry
  of the active sequence; it takes and releases the lock, adds one to the counter in the
  second case and changes nothing else.
\<close>

definition selects :: "(balancer \<Rightarrow> panic + (url option \<times> balancer)) \<Rightarrow> bool" where
  "selects next \<longleftrightarrow>
     (\<forall>r. (activeUrls r = [] \<and> next r = Inr (None, r\<lparr>events := events r @ [Lock, Unlock]\<rparr>))
        \<or> (\<exists>u \<in> set (activeUrls r).
              next r = Inr (Some u, r\<lparr>currentIndex := currentIndex r + 1,
                                      events := events r @ [Lock, Unlock]\<rparr>)))"

section \<open>Concrete inputs\<close>

text \<open>
  The backends of \<^verbatim>\<open>main\<close> and of the tests, as the caller's URL objects, a second
  object for the first string (as \<^verbatim>\<open>url.Parse\<close> of the same text gives), and networks
  that answer every request alike. The balancer \<open>fresh\<close> is what
  \<^verbatim>\<open>NewRoundRobinBalancer(backends)\<close> returns on a heap whose next unused address is 10.
\<close>

definition all_parse :: "string \<Rightarrow> bool" where
  "all_parse s = True"

text \<open>
  What \<^verbatim>\<open>url.Parse\<close> followed by \<^verbatim>\<open>String()\<close> makes of the strings used below: the
  scheme, the text before the first colon, is lower-cased, and the rest is reproduced.
\<close>

definition lower :: "char \<Rightarrow> char" where
  "lower c =
     (case map_of (zip ''ABCDEFGHIJKLMNOPQRSTUVWXYZ'' ''abcdefghijklmnopqrstuvwxyz'') c of
        None \<Rightarrow> c
      | Some d \<Rightarrow> d)"

definition go_prints :: "string \<Rightarrow> string" where
  "go_prints s =
     map lower (takeWhile (\<lambda>c. c \<noteq> CHR '':'') s) @ dropWhile (\<lambda>c. c \<noteq> CHR '':'') s"

definition u81 :: url where
  "u81 = \<lparr>addr = 1, str = ''http://localhost:81''\<rparr>"

definition u82 :: url where
  "u82 = \<lparr>addr = 2, str = ''http://localhost:82''\<rparr>"

definition u83 :: url where
  "u83 = \<lparr>addr = 3, str = ''http://localhost:83''\<rparr>"

definition u81_again :: url where
  "u81_again = \<lparr>addr = 4, str = ''http://localhost:81''\<rparr>"

definition backends :: "url list" where
  "backends = [u81, u82, u83]"

definition fresh :: balancer where
  "fresh = NewRoundRobinBalancer all_parse go_prints 10 backends"

definition net_ok :: network where
  "net_ok t s = Response 200 (Some ''mock response'')"

definition net_500 :: network where
  "net_500 t s = Response 500 (Some [])"

definition net_down :: network where
  "net_down t s = TransportError"

text \<open>
  An endpoint that is in no registry, and the registry of \<^verbatim>\<open>main\<close> after
  \<open>2 ^ 64 - 1\<close> calls of \<^verbatim>\<open>GetNextURL\<close>: its counter holds the largest \<^verbatim>\<open>uint64\<close>.
\<close>

definition u84 :: url where
  "u84 = \<lparr>addr = 5, str = ''http://localhost:84''\<rparr>"

text \<open>
  The first backend as a caller builds it with the scheme in upper case
  (\<^verbatim>\<open>&url.URL{Scheme: "HTTP", Host: "localhost:81"}\<close>).
\<close>

definition u81_upper :: url where
  "u81_upper = \<lparr>addr = 6, str = ''HTTP://localhost:81''\<rparr>"

definition at_max :: balancer where
  "at_max = snd (next_calls 18446744073709551615 fresh)"

text \<open>A network that answers 500 at first and 200 from the third event on.\<close>

definition net_500_then_ok :: network where
  "net_500_then_ok t s =
     (if t < 3 then Response 500 (Some []) else Response 200 (Some ''mock response''))"

section \<open>Basic facts\<close>

subsection \<open>Selection\<close>

lemma GetNextURL_empty:
  "activeUrls r = [] \<Longrightarrow> GetNextURL r = Inr (None, r\<lparr>events := events r @ [Lock, Unlock]\<rparr>)"
  by (simp add: GetNextURL_def lock_Lock_def lock_Unlock_def)

lemma GetNextURL_nonempty:
  "activeUrls r \<noteq> [] \<Longrightarrow>
   GetNextURL r =
     Inr (Some (activeUrls r ! (unat (currentIndex r) mod length (activeUrls r))),
          r\<lparr>currentIndex := currentIndex r + 1, events := events r @ [Lock, Unlock]\<rparr>)"
  by (simp add: GetNextURL_def lock_Lock_def lock_Unlock_def umod_def slice_index_def)

lemma GetNextURL_main_empty:
  "activeUrls r = [] \<Longrightarrow> GetNextURL_main r = Inr (None, r\<lparr>events := events r @ [Lock, Unlock]\<rparr>)"
  by (simp add: GetNextURL_main_def lock_Lock_def lock_Unlock_def)

lemma GetNextURL_main_nonempty:
  "activeUrls r \<noteq> [] \<Longrightarrow>
   GetNextURL_main r =
     Inr (Some (activeUrls r ! (unat (currentIndex r + 1) mod length (activeUrls r))),
          r\<lparr>currentIndex := currentIndex r + 1, events := events r @ [Lock, Unlock]\<rparr>)"
  by (simp add: GetNextURL_main_def lock_Lock_def lock_Unlock_def umod_def slice_index_def Let_def)

lemma GetNextURL_frame:
  "GetNextURL r = Inr (res, r') \<Longrightarrow>
   activeUrls r' = activeUrls r \<and> removedUrls r' = removedUrls r"
  by (cases "activeUrls r = []") (auto simp: GetNextURL_empty GetNextURL_nonempty)

lemma selects_GetNextURL: "selects GetNextURL"
  unfolding selects_def
proof
  fix r show "(activeUrls r = [] \<and> GetNextURL r = Inr (None, r\<lparr>events := events r @ [Lock, Unlock]\<rparr>))
        \<or> (\<exists>u \<in> set (activeUrls r).
              GetNextURL r = Inr (Some u, r\<lparr>currentIndex := currentIndex r + 1,
                                      events := events r @ [Lock, Unlock]\<rparr>))"
    by (cases "activeUrls r = []") (simp_all add: GetNextURL_empty GetNextURL_nonempty)
qed

lemma selects_GetNextURL_main: "selects GetNextURL_main"
  unfolding selects_def
proof
  fix r show "(activeUrls r = [] \<and> GetNextURL_main r = Inr (None, r\<lparr>events := events r @ [Lock, Unlock]\<rparr>))
        \<or> (\<exists>u \<in> set (activeUrls r).
              GetNextURL_main r = Inr (Some u, r\<lparr>currentIndex := currentIndex r + 1,
                                      events := events r @ [Lock, Unlock]\<rparr>))"
    by (cases "activeUrls r = []") (simp_all add: GetNextURL_main_empty GetNextURL_main_nonempty)
qed

lemma go_prints_simps:
  "go_prints ''http://localhost:81'' = ''http://localhost:81''"
  "go_prints ''http://localhost:82'' = ''http://localhost:82''"
  "go_prints ''http://localhost:83'' = ''http://localhost:83''"
  "go_prints ''http://localhost:84'' = ''http://localhost:84''"
  "go_prints ''HTTP://localhost:81'' = ''http://localhost:81''"
  by (simp_all add: go_prints_def lower_def)

lemma fresh_eq:
  "fresh =
     \<lparr>activeUrls = [\<lparr>addr = 10, str = ''http://localhost:81''\<rparr>,
                    \<lparr>addr = 11, str = ''http://localhost:82''\<rparr>,
                    \<lparr>addr = 12, str = ''http://localhost:83''\<rparr>],
      removedUrls = {}, currentIndex = 0, events = [], next_addr = 13\<rparr>"
  by (simp add: fresh_def NewRoundRobinBalancer_def backends_def u81_def u82_def u83_def
      url_Parse_def all_parse_def go_prints_simps)

lemma fresh_fields:
  "activeUrls fresh = [\<lparr>addr = 10, str = ''http://localhost:81''\<rparr>,
                    \<lparr>addr = 11, str = ''http://localhost:82''\<rparr>,
                    \<lparr>addr = 12, str = ''http://localhost:83''\<rparr>]"
  "removedUrls fresh = {}" "currentIndex fresh = 0" "events fresh = []" "next_addr fresh = 13"
  by (simp_all add: fresh_eq)

subsection \<open>Removal\<close>

lemma RemoveURL_fields:
  "activeUrls (RemoveURL u r) = remove_first (str u) (activeUrls r)"
  "removedUrls (RemoveURL u r) = insert u (removedUrls r)"
  "currentIndex (RemoveURL u r) = currentIndex r"
  "events (RemoveURL u r) = events r @ [Lock, Unlock]"
  "next_addr (RemoveURL u r) = next_addr r"
  by (simp_all add: RemoveURL_def lock_Lock_def lock_Unlock_def)

lemma set_remove_first: "set (remove_first s us) \<subseteq> set us"
  by (induction us) auto

lemma remove_first_absent: "s \<notin> str ` set us \<Longrightarrow> remove_first s us = us"
  by (induction us) auto

lemma distinct_remove_first:
  "distinct (map str us) \<Longrightarrow>
   distinct (map str (remove_first s us)) \<and> s \<notin> str ` set (remove_first s us)"
proof (induction us)
  case Nil
  show ?case by simp
next
  case (Cons a us)
  show ?case
  proof (cases "str a = s")
    case True
    with Cons.prems show ?thesis by auto
  next
    case False
    have "str a \<notin> str ` set (remove_first s us)"
      using Cons.prems set_remove_first [of s us] by auto
    with False Cons show ?thesis by simp
  qed
qed

lemma remove_first_props:
  assumes "distinct (map str us)" and "x \<in> set (remove_first s us)"
  shows "x \<in> set us" and "str x \<noteq> s"
proof -
  show "x \<in> set us" using assms(2) set_remove_first [of s us] by blast
  have "s \<notin> str ` set (remove_first s us)"
    using distinct_remove_first [OF assms(1), of s] by simp
  with assms(2) show "str x \<noteq> s" by blast
qed

lemma length_remove_first:
  "u \<in> set us \<Longrightarrow> Suc (length (remove_first (str u) us)) = length us"
  by (induction us) auto

subsection \<open>The restore pass\<close>

lemma restore_body_currentIndex:
  "currentIndex (restore_body parses prints net k r) = currentIndex r"
  by (simp add: restore_body_def client_Do_def split: option.splits response.splits)

lemma restore_body_events:
  "events (restore_body parses prints net k r) = events r @ map Do (filter parses [str k])"
  by (simp add: restore_body_def client_Do_def NewRequest_def url_Parse_def
      split: option.splits response.splits)

lemma restore_body_removed:
  "removedUrls (restore_body parses prints net k r) = removedUrls r \<or>
   removedUrls (restore_body parses prints net k r) = removedUrls r - {k}"
  by (simp add: restore_body_def client_Do_def split: option.splits response.splits)

lemma restore_body_active:
  "activeUrls (restore_body parses prints net k r) = activeUrls r \<and>
     removedUrls (restore_body parses prints net k r) = removedUrls r \<or>
   (\<exists>a. activeUrls (restore_body parses prints net k r) =
          activeUrls r @ [\<lparr>addr = a, str = prints (str k)\<rparr>] \<and>
     removedUrls (restore_body parses prints net k r) = removedUrls r - {k})"
  by (simp add: restore_body_def client_Do_def url_Parse_def split: option.splits response.splits)

text \<open>
  When the loop body reinstates the key it visits: in the copies of loadbalance.go and
  main.go lines 65 to 91, exactly when the probe is answered with status 200; in the
  older copy, whenever the probe is answered at all.
\<close>

lemma restore_body_reinstates_iff:
  "k \<in> removedUrls r \<Longrightarrow>
   (k \<notin> removedUrls (restore_body parses prints net k r)) =
     (parses (str k) \<and> (\<exists>b. net (length (events r)) (str k) = Response 200 b))"
  by (auto simp: restore_body_def client_Do_def NewRequest_def url_Parse_def
      split: option.splits response.splits)

lemma restore_body_old_reinstates_iff:
  "k \<in> removedUrls r \<Longrightarrow>
   (k \<notin> removedUrls (restore_body_old parses prints net k r)) =
     (parses (str k) \<and> net (length (events r)) (str k) \<noteq> TransportError)"
  by (auto simp: restore_body_old_def client_Do_def NewRequest_def url_Parse_def
      split: option.splits response.splits)

lemma restore_range_currentIndex:
  "currentIndex (restore_range parses prints net keys r) = currentIndex r"
  by (induction keys arbitrary: r) (simp_all add: restore_body_currentIndex)

lemma restore_range_events:
  "events (restore_range parses prints net keys r) = events r @ map Do (filter parses (map str keys))"
  by (induction keys arbitrary: r) (simp_all add: restore_body_events)

lemma restore_range_removed_subset:
  "removedUrls (restore_range parses prints net keys r) \<subseteq> removedUrls r"
proof (induction keys arbitrary: r)
  case Nil
  show ?case by simp
next
  case (Cons k keys)
  have "removedUrls (restore_body parses prints net k r) \<subseteq> removedUrls r"
    using restore_body_removed [of parses prints net k r] by auto
  with Cons [of "restore_body parses prints net k r"] show ?case by auto
qed

lemma restore_range_active:
  "\<exists>new. activeUrls (restore_range parses prints net keys r) = activeUrls r @ new
     \<and> str ` set new \<subseteq> prints ` str ` set keys"
proof (induction keys arbitrary: r)
  case Nil
  show ?case by simp
next
  case (Cons k keys)
  let ?r = "restore_body parses prints net k r"
  obtain new where new: "activeUrls (restore_range parses prints net keys ?r) = activeUrls ?r @ new"
      "str ` set new \<subseteq> prints ` str ` set keys"
    using Cons [of ?r] by blast
  from restore_body_active [of parses prints net k r] show ?case
  proof (elim disjE exE conjE)
    assume "activeUrls ?r = activeUrls r"
    with new have "activeUrls (restore_range parses prints net (k # keys) r) = activeUrls r @ new"
      by simp
    moreover have "str ` set new \<subseteq> prints ` str ` set (k # keys)"
      using new(2) by auto
    ultimately show ?thesis by blast
  next
    fix a assume "activeUrls ?r = activeUrls r @ [\<lparr>addr = a, str = prints (str k)\<rparr>]"
    with new have "activeUrls (restore_range parses prints net (k # keys) r)
        = activeUrls r @ (\<lparr>addr = a, str = prints (str k)\<rparr> # new)" by simp
    moreover have "str ` set (\<lparr>addr = a, str = prints (str k)\<rparr> # new)
        \<subseteq> prints ` str ` set (k # keys)"
      using new(2) by auto
    ultimately show ?thesis by blast
  qed
qed

lemma CheckAndRestoreUrls_fields:
  "currentIndex (CheckAndRestoreUrls parses prints net keys r) = currentIndex r"
  "events (CheckAndRestoreUrls parses prints net keys r) =
     events r @ Lock # map Do (filter parses (map str keys)) @ [Unlock]"
  by (simp_all add: CheckAndRestoreUrls_def lock_Lock_def lock_Unlock_def
      restore_range_currentIndex restore_range_events)

lemma CheckAndRestoreUrls_active:
  "\<exists>new. activeUrls (CheckAndRestoreUrls parses prints net keys r) = activeUrls r @ new
     \<and> str ` set new \<subseteq> prints ` str ` set keys"
  using restore_range_active [of parses prints net keys "lock_Lock r"]
  by (simp add: CheckAndRestoreUrls_def lock_Lock_def lock_Unlock_def)

lemma CheckAndRestoreUrls_removed:
  "removedUrls (CheckAndRestoreUrls parses prints net keys r) \<subseteq> removedUrls r"
  using restore_range_removed_subset [of parses prints net keys "lock_Lock r"]
  by (simp add: CheckAndRestoreUrls_def lock_Lock_def lock_Unlock_def)

subsection \<open>The dispatch loop\<close>

lemma dispatch_loop_non200:
  assumes "next r = Inr (Some u, r1)" and "parses (str u)"
    and "net (length (events r1)) (str u) = Response status body" and "status \<noteq> 200"
  shows "dispatch_loop next parses net r =
     dispatch_loop next parses net (r1\<lparr>events := events r1 @ [Do (str u)]\<rparr>)"
  using assms by (subst dispatch_loop.simps) (simp add: NewRequest_def client_Do_def)

lemma dispatch_loop_transport:
  assumes "next r = Inr (Some u, r1)" and "parses (str u)"
    and "net (length (events r1)) (str u) = TransportError"
  shows "dispatch_loop next parses net r =
     dispatch_loop next parses net (RemoveURL u (r1\<lparr>events := events r1 @ [Do (str u)]\<rparr>))"
  using assms by (subst dispatch_loop.simps) (simp add: NewRequest_def client_Do_def)

lemma dispatch_loop_stops:
  "next r = Inl p \<Longrightarrow> dispatch_loop next parses net r = Some (Panicked p, r)"
  "next r = Inr (None, r1) \<Longrightarrow> dispatch_loop next parses net r = Some (NoActiveServers, r1)"
  "next r = Inr (Some u, r1) \<Longrightarrow> \<not> parses (str u) \<Longrightarrow>
     dispatch_loop next parses net r = Some (RequestError, r1)"
  "next r = Inr (Some u, r1) \<Longrightarrow> parses (str u) \<Longrightarrow>
     net (length (events r1)) (str u) = Response 200 None \<Longrightarrow>
     dispatch_loop next parses net r = Some (ReadError, r1\<lparr>events := events r1 @ [Do (str u)]\<rparr>)"
  "next r = Inr (Some u, r1) \<Longrightarrow> parses (str u) \<Longrightarrow>
     net (length (events r1)) (str u) = Response 200 (Some b) \<Longrightarrow>
     dispatch_loop next parses net r = Some (Responded b, r1\<lparr>events := events r1 @ [Do (str u)]\<rparr>)"
  by (subst dispatch_loop.simps, simp add: NewRequest_def client_Do_def)+

lemma dispatch_loop_terminates:
  assumes sel: "selects next"
    and net: "\<And>t s status body. B \<le> t \<Longrightarrow> net t s = Response status body \<Longrightarrow> status = 200"
  shows "\<exists>res. dispatch_loop next parses net r = Some res"
proof (induction "(B - length (events r)) + length (activeUrls r)" arbitrary: r rule: less_induct)
  case less
  from sel have "(activeUrls r = [] \<and> next r = Inr (None, r\<lparr>events := events r @ [Lock, Unlock]\<rparr>))
        \<or> (\<exists>u \<in> set (activeUrls r).
              next r = Inr (Some u, r\<lparr>currentIndex := currentIndex r + 1,
                                      events := events r @ [Lock, Unlock]\<rparr>))"
    unfolding selects_def by blast
  then show ?case
  proof (elim disjE conjE bexE)
    assume "next r = Inr (None, r\<lparr>events := events r @ [Lock, Unlock]\<rparr>)"
    then show ?thesis by (simp add: dispatch_loop_stops)
  next
    fix u :: url
    let ?r1 = "r\<lparr>currentIndex := currentIndex r + 1, events := events r @ [Lock, Unlock]\<rparr>"
    let ?r2 = "?r1\<lparr>events := events ?r1 @ [Do (str u)]\<rparr>"
    assume u: "u \<in> set (activeUrls r)" and n: "next r = Inr (Some u, ?r1)"
    show ?thesis
    proof (cases "parses (str u)")
      case False
      with n show ?thesis by (simp add: dispatch_loop_stops)
    next
      case True
      show ?thesis
      proof (cases "net (length (events ?r1)) (str u)")
        case TransportError
        have "Suc (length (activeUrls (RemoveURL u ?r2))) = length (activeUrls r)"
          using length_remove_first [OF u] by (simp add: RemoveURL_fields)
        moreover have "length (events r) \<le> length (events (RemoveURL u ?r2))"
          by (simp add: RemoveURL_fields)
        ultimately have "(B - length (events (RemoveURL u ?r2))) + length (activeUrls (RemoveURL u ?r2))
            < (B - length (events r)) + length (activeUrls r)"
          by arith
        then have "\<exists>res. dispatch_loop next parses net (RemoveURL u ?r2) = Some res"
          by (rule less)
        then show ?thesis
          by (simp only: dispatch_loop_transport [of "next" r u ?r1 parses net, OF n True TransportError])
      next
        case (Response status body)
        show ?thesis
        proof (cases "status = 200")
          case True
          with n \<open>parses (str u)\<close> Response show ?thesis
            by (cases body) (simp_all add: dispatch_loop_stops)
        next
          case False
          have "\<not> B \<le> length (events ?r1)"
            using net [of "length (events ?r1)" "str u" status body] Response False by blast
          then have "(B - length (events ?r2)) + length (activeUrls ?r2)
              < (B - length (events r)) + length (activeUrls r)"
            by simp
          then have "\<exists>res. dispatch_loop next parses net ?r2 = Some res"
            by (rule less)
          then show ?thesis
            by (simp only: dispatch_loop_non200 [of "next" r u ?r1 parses net status body, OF n True Response False])
        qed
      qed
    qed
  qed
qed

lemma SendRequest_terminates:
  assumes "\<And>t s status body. B \<le> t \<Longrightarrow> net t s = Response status body \<Longrightarrow> status = 200"
  shows "\<exists>res. SendRequest parses net r = Some res"
  unfolding SendRequest_def using selects_GetNextURL assms by (rule dispatch_loop_terminates)

lemma sendRequest_terminates:
  assumes "\<And>t s status body. B \<le> t \<Longrightarrow> net t s = Response status body \<Longrightarrow> status = 200"
  shows "\<exists>res. sendRequest parses net r = Some res"
  unfolding sendRequest_def using selects_GetNextURL_main assms by (rule dispatch_loop_terminates)

lemma dispatch_loop_diverges:
  assumes sel: "selects next"
    and parses: "\<And>s. parses s"
    and net: "\<And>t s. \<exists>status body. net t s = Response status body \<and> status \<noteq> 200"
  shows "activeUrls r \<noteq> [] \<Longrightarrow> dispatch_loop next parses net r = None"
proof -
  have "\<not> (nx = next \<and> ps = parses \<and> nt = net \<and> activeUrls r \<noteq> [])"
    if "dispatch_loop nx ps nt r = Some y" for nx ps nt r y
  proof (rule dispatch_loop.raw_induct [where P = "\<lambda>nx ps nt r y.
      \<not> (nx = next \<and> ps = parses \<and> nt = net \<and> activeUrls r \<noteq> [])", OF _ that], goal_cases)
    case (1 loop nx ps nt r y)
    show ?case
    proof
      assume a: "nx = next \<and> ps = parses \<and> nt = net \<and> activeUrls r \<noteq> []"
      let ?r1 = "r\<lparr>currentIndex := currentIndex r + 1, events := events r @ [Lock, Unlock]\<rparr>"
      let ?r2 = "?r1\<lparr>events := events ?r1 @ [Do (str u)]\<rparr>"
      from sel a obtain u :: url where n: "next r = Inr (Some u, ?r1)"
        unfolding selects_def by blast
      obtain status body where
        r: "net (length (events ?r1)) (str u) = Response status body" "status \<noteq> 200"
        using net by blast
      from 1(2) a n r parses
      have "loop next parses net (?r1\<lparr>events := events ?r1 @ [Do (str u)]\<rparr>) = Some y"
        by (simp add: NewRequest_def client_Do_def)
      from 1(1) [OF this] a show False by simp
    qed
  qed
  then show "activeUrls r \<noteq> [] \<Longrightarrow> dispatch_loop next parses net r = None"
    by (cases "dispatch_loop next parses net r") auto
qed

lemma dispatch_loop_events:
  assumes sel: "selects next"
  shows "dispatch_loop next parses net r = Some (out, r') \<Longrightarrow>
     \<exists>es. events r' = events r @ es \<and> io_outside_lock False es \<and> \<not> held_after False es"
proof -
  have "nx = next \<longrightarrow>
      (\<exists>es. events (snd y) = events r @ es \<and> io_outside_lock False es \<and> \<not> held_after False es)"
    if "dispatch_loop nx ps nt r = Some y" for nx ps nt r y
  proof (rule dispatch_loop.raw_induct [where P = "\<lambda>nx ps nt r y. nx = next \<longrightarrow>
      (\<exists>es. events (snd y) = events r @ es \<and> io_outside_lock False es \<and> \<not> held_after False es)",
      OF _ that], goal_cases)
    case (1 loop nx ps nt r y)
    show ?case
    proof
      assume nx: "nx = next"
      let ?r0 = "r\<lparr>events := events r @ [Lock, Unlock]\<rparr>"
      let ?r1 = "r\<lparr>currentIndex := currentIndex r + 1, events := events r @ [Lock, Unlock]\<rparr>"
      from sel have "next r = Inr (None, ?r0) \<or> (\<exists>u. next r = Inr (Some u, ?r1))"
        unfolding selects_def by blast
      then show "\<exists>es. events (snd y) = events r @ es \<and> io_outside_lock False es \<and> \<not> held_after False es"
      proof (elim disjE exE)
        assume "next r = Inr (None, ?r0)"
        with 1(2) nx have "y = (NoActiveServers, ?r0)" by simp
        then show ?thesis by simp
      next
        fix u :: url
        assume n: "next r = Inr (Some u, ?r1)"
        let ?r2 = "?r1\<lparr>events := events ?r1 @ [Do (str u)]\<rparr>"
        show ?thesis
        proof (cases "ps (str u)")
          case False
          with 1(2) nx n have "y = (RequestError, ?r1)" by (simp add: NewRequest_def)
          then show ?thesis by simp
        next
          case True
          show ?thesis
          proof (cases "nt (length (events ?r1)) (str u)")
            case TransportError
            with 1(2) nx n True have "loop next ps nt (RemoveURL u ?r2) = Some y"
              by (simp add: NewRequest_def client_Do_def)
            from 1(1) [OF this] obtain es where
              "events (snd y) = events (RemoveURL u ?r2) @ es" "io_outside_lock False es"
              "\<not> held_after False es" by blast
            then have "events (snd y) = events r @ ([Lock, Unlock, Do (str u), Lock, Unlock] @ es)
                \<and> io_outside_lock False ([Lock, Unlock, Do (str u), Lock, Unlock] @ es)
                \<and> \<not> held_after False ([Lock, Unlock, Do (str u), Lock, Unlock] @ es)"
              by (simp add: RemoveURL_fields)
            then show ?thesis by blast
          next
            case (Response status body)
            show ?thesis
            proof (cases "status = 200")
              case True
              with 1(2) nx n \<open>ps (str u)\<close> Response have "snd y = ?r2"
                by (cases body) (auto simp: NewRequest_def client_Do_def)
              then have "events (snd y) = events r @ [Lock, Unlock, Do (str u)]
                \<and> io_outside_lock False [Lock, Unlock, Do (str u)]
                \<and> \<not> held_after False [Lock, Unlock, Do (str u)]" by simp
              then show ?thesis by blast
            next
              case False
              with 1(2) nx n True Response have "loop next ps nt ?r2 = Some y"
                by (simp add: NewRequest_def client_Do_def)
              from 1(1) [OF this] obtain es where
                "events (snd y) = events ?r2 @ es" "io_outside_lock False es"
                "\<not> held_after False es" by blast
              then have "events (snd y) = events r @ ([Lock, Unlock, Do (str u)] @ es)
                  \<and> io_outside_lock False ([Lock, Unlock, Do (str u)] @ es)
                  \<and> \<not> held_after False ([Lock, Unlock, Do (str u)] @ es)"
                by simp
              then show ?thesis by blast
            qed
          qed
        qed
      qed
    qed
  qed
  from this [of "next" parses net r "(out, r')"]
  show "dispatch_loop next parses net r = Some (out, r') \<Longrightarrow>
     \<exists>es. events r' = events r @ es \<and> io_outside_lock False es \<and> \<not> held_after False es"
    by simp
qed

lemma io_under_lock:
  "xs \<noteq> [] \<Longrightarrow> \<not> io_outside_lock True (map Do xs @ es)"
  by (cases xs) simp_all

subsection \<open>The invariant of the registry\<close>

lemma registry_inv_frame:
  "activeUrls r' = activeUrls r \<Longrightarrow> removedUrls r' = removedUrls r \<Longrightarrow>
   registry_inv prints r' = registry_inv prints r"
  by (simp add: registry_inv_def registry_ok_def stable_def)

lemma registry_inv_events:
  "registry_inv prints (r\<lparr>events := es\<rparr>) = registry_inv prints r"
  by (simp add: registry_inv_def registry_ok_def stable_def)

lemma registry_inv_currentIndex:
  "registry_inv prints (r\<lparr>currentIndex := c\<rparr>) = registry_inv prints r"
  by (simp add: registry_inv_def registry_ok_def stable_def)

lemma registry_invD:
  "registry_inv prints r \<Longrightarrow> distinct (map str (activeUrls r))"
  "registry_inv prints r \<Longrightarrow> x \<in> set (activeUrls r) \<Longrightarrow> y \<in> removedUrls r \<Longrightarrow> str x \<noteq> str y"
  "registry_inv prints r \<Longrightarrow> x \<in> removedUrls r \<Longrightarrow> y \<in> removedUrls r \<Longrightarrow> str x = str y \<Longrightarrow>
   x = y"
  "registry_inv prints r \<Longrightarrow> x \<in> set (activeUrls r) \<Longrightarrow> prints (str x) = str x"
  "registry_inv prints r \<Longrightarrow> y \<in> removedUrls r \<Longrightarrow> prints (str y) = str y"
  unfolding registry_inv_def registry_ok_def inj_on_def stable_def by blast+

lemma registry_invI:
  "distinct (map str (activeUrls r)) \<Longrightarrow>
   (\<And>x y. x \<in> set (activeUrls r) \<Longrightarrow> y \<in> removedUrls r \<Longrightarrow> str x \<noteq> str y) \<Longrightarrow>
   (\<And>x y. x \<in> removedUrls r \<Longrightarrow> y \<in> removedUrls r \<Longrightarrow> str x = str y \<Longrightarrow> x = y) \<Longrightarrow>
   (\<And>x. x \<in> set (activeUrls r) \<Longrightarrow> prints (str x) = str x) \<Longrightarrow>
   (\<And>y. y \<in> removedUrls r \<Longrightarrow> prints (str y) = str y) \<Longrightarrow>
   registry_inv prints r"
  unfolding registry_inv_def registry_ok_def inj_on_def stable_def by blast

lemma NewRoundRobinBalancer_inv:
  assumes "r = NewRoundRobinBalancer parses prints a bs"
    and "distinct (map str (activeUrls r))" and "stable prints r"
  shows "registry_inv prints r"
proof -
  have "removedUrls r = {}" using assms(1) by (simp add: NewRoundRobinBalancer_def)
  with assms(2,3) show ?thesis by (simp add: registry_inv_def registry_ok_def)
qed

lemma RemoveURL_inv:
  assumes inv: "registry_inv prints r"
    and u: "u \<in> removedUrls r \<or> str u \<notin> str ` removedUrls r"
    and p: "prints (str u) = str u"
  shows "registry_inv prints (RemoveURL u r)"
proof (rule registry_invI)
  have "distinct (map str (remove_first (str u) (activeUrls r)))"
    using distinct_remove_first [OF registry_invD(1) [OF inv], of "str u"] by simp
  then show "distinct (map str (activeUrls (RemoveURL u r)))"
    by (simp only: RemoveURL_fields)
next
  fix x y
  assume x: "x \<in> set (activeUrls (RemoveURL u r))" and y: "y \<in> removedUrls (RemoveURL u r)"
  have x1: "x \<in> set (remove_first (str u) (activeUrls r))"
    using x by (simp only: RemoveURL_fields)
  note xp = remove_first_props [OF registry_invD(1) [OF inv] x1]
  from y have "y = u \<or> y \<in> removedUrls r" by (simp only: RemoveURL_fields insert_iff)
  then show "str x \<noteq> str y"
  proof
    assume "y = u" with xp(2) show ?thesis by simp
  next
    assume "y \<in> removedUrls r"
    then show ?thesis by (rule registry_invD(2) [OF inv xp(1)])
  qed
next
  fix x y
  assume "x \<in> removedUrls (RemoveURL u r)" "y \<in> removedUrls (RemoveURL u r)"
    and e: "str x = str y"
  then have x: "x = u \<or> x \<in> removedUrls r" and y: "y = u \<or> y \<in> removedUrls r"
    by (simp_all only: RemoveURL_fields insert_iff)
  show "x = y"
  proof (cases "u \<in> removedUrls r")
    case True
    with x y have "x \<in> removedUrls r" "y \<in> removedUrls r" by auto
    then show ?thesis using e by (rule registry_invD(3) [OF inv])
  next
    case False
    with u have n: "str u \<notin> str ` removedUrls r" by simp
    from x y show ?thesis
    proof (elim disjE)
      assume "x = u" "y = u" then show ?thesis by simp
    next
      assume "x = u" "y \<in> removedUrls r" with n e show ?thesis by (metis imageI)
    next
      assume "x \<in> removedUrls r" "y = u" with n e show ?thesis by (metis imageI)
    next
      assume "x \<in> removedUrls r" "y \<in> removedUrls r"
      then show ?thesis using e by (rule registry_invD(3) [OF inv])
    qed
  qed
next
  fix x
  assume "x \<in> set (activeUrls (RemoveURL u r))"
  then have "x \<in> set (remove_first (str u) (activeUrls r))"
    by (simp only: RemoveURL_fields)
  then have "x \<in> set (activeUrls r)"
    using set_remove_first [of "str u" "activeUrls r"] by blast
  then show "prints (str x) = str x" by (rule registry_invD(4) [OF inv])
next
  fix y
  assume "y \<in> removedUrls (RemoveURL u r)"
  then have "y = u \<or> y \<in> removedUrls r" by (simp only: RemoveURL_fields insert_iff)
  then show "prints (str y) = str y"
    using p registry_invD(5) [OF inv] by blast
qed

lemma restore_body_inv:
  assumes inv: "registry_inv prints r" and k: "k \<in> removedUrls r"
  shows "registry_inv prints (restore_body parses prints net k r)"
  using restore_body_active [of parses prints net k r]
proof (elim disjE exE conjE)
  assume "activeUrls (restore_body parses prints net k r) = activeUrls r"
    "removedUrls (restore_body parses prints net k r) = removedUrls r"
  then show ?thesis using inv registry_inv_frame by blast
next
  fix a
  have pk: "prints (str k) = str k" using k by (rule registry_invD(5) [OF inv])
  assume "activeUrls (restore_body parses prints net k r) =
      activeUrls r @ [\<lparr>addr = a, str = prints (str k)\<rparr>]"
  then have a: "activeUrls (restore_body parses prints net k r) =
      activeUrls r @ [\<lparr>addr = a, str = str k\<rparr>]"
    by (simp only: pk)
  assume r: "removedUrls (restore_body parses prints net k r) = removedUrls r - {k}"
  have 1: "str k \<notin> str ` set (activeUrls r)"
    using registry_invD(2) [OF inv _ k] by (metis imageE)
  show ?thesis
  proof (rule registry_invI)
    show "distinct (map str (activeUrls (restore_body parses prints net k r)))"
      using registry_invD(1) [OF inv] 1 by (simp add: a)
  next
    fix x y
    assume x: "x \<in> set (activeUrls (restore_body parses prints net k r))"
      and y: "y \<in> removedUrls (restore_body parses prints net k r)"
    from y have y1: "y \<in> removedUrls r" and y2: "y \<noteq> k" by (simp_all add: r)
    from x have "x = \<lparr>addr = a, str = str k\<rparr> \<or> x \<in> set (activeUrls r)" by (auto simp: a)
    then show "str x \<noteq> str y"
    proof
      assume "x = \<lparr>addr = a, str = str k\<rparr>"
      then have "str x = str k" by simp
      then show ?thesis using registry_invD(3) [OF inv k y1] y2 by metis
    next
      assume "x \<in> set (activeUrls r)"
      then show ?thesis using y1 by (rule registry_invD(2) [OF inv])
    qed
  next
    fix x y
    assume "x \<in> removedUrls (restore_body parses prints net k r)"
      "y \<in> removedUrls (restore_body parses prints net k r)" and e: "str x = str y"
    then have "x \<in> removedUrls r" "y \<in> removedUrls r" by (simp_all add: r)
    then show "x = y" using e by (rule registry_invD(3) [OF inv])
  next
    fix x
    assume "x \<in> set (activeUrls (restore_body parses prints net k r))"
    then have "x = \<lparr>addr = a, str = str k\<rparr> \<or> x \<in> set (activeUrls r)" by (auto simp: a)
    then show "prints (str x) = str x"
    proof
      assume "x = \<lparr>addr = a, str = str k\<rparr>"
      then have "str x = str k" by simp
      with pk show ?thesis by simp
    next
      assume "x \<in> set (activeUrls r)"
      then show ?thesis by (rule registry_invD(4) [OF inv])
    qed
  next
    fix y
    assume "y \<in> removedUrls (restore_body parses prints net k r)"
    then have "y \<in> removedUrls r" by (simp add: r)
    then show "prints (str y) = str y" by (rule registry_invD(5) [OF inv])
  qed
qed

lemma restore_range_inv:
  "registry_inv prints r \<Longrightarrow> set keys \<subseteq> removedUrls r \<Longrightarrow> distinct keys \<Longrightarrow>
   registry_inv prints (restore_range parses prints net keys r)"
proof (induction keys arbitrary: r)
  case Nil
  then show ?case by simp
next
  case (Cons k keys)
  have "registry_inv prints (restore_body parses prints net k r)"
    using Cons.prems by (simp add: restore_body_inv)
  moreover have "set keys \<subseteq> removedUrls (restore_body parses prints net k r)"
    using Cons.prems restore_body_removed [of parses prints net k r] by auto
  ultimately show ?case using Cons.IH Cons.prems by simp
qed

lemma CheckAndRestoreUrls_inv:
  "registry_inv prints r \<Longrightarrow> set keys \<subseteq> removedUrls r \<Longrightarrow> distinct keys \<Longrightarrow>
   registry_inv prints (CheckAndRestoreUrls parses prints net keys r)"
  using restore_range_inv [of prints "lock_Lock r" keys parses net]
  by (simp add: CheckAndRestoreUrls_def lock_Lock_def lock_Unlock_def registry_inv_events)

lemma GetNextURL_inv:
  "registry_inv prints r \<Longrightarrow> GetNextURL r = Inr (res, r') \<Longrightarrow> registry_inv prints r'"
  using GetNextURL_frame [of r res r'] registry_inv_frame [of r' r prints] by simp

lemma dispatch_loop_inv:
  assumes sel: "selects next"
  shows "dispatch_loop next parses net r = Some (out, r') \<Longrightarrow> registry_inv prints r \<Longrightarrow> registry_inv prints r'"
proof -
  have "nx = next \<longrightarrow> registry_inv prints r \<longrightarrow> registry_inv prints (snd y)"
    if "dispatch_loop nx ps nt r = Some y" for nx ps nt r y
  proof (rule dispatch_loop.raw_induct [where P = "\<lambda>nx ps nt r y.
      nx = next \<longrightarrow> registry_inv prints r \<longrightarrow> registry_inv prints (snd y)", OF _ that], goal_cases)
    case (1 loop nx ps nt r y)
    show ?case
    proof (intro impI)
      assume nx: "nx = next" and inv: "registry_inv prints r"
      let ?r0 = "r\<lparr>events := events r @ [Lock, Unlock]\<rparr>"
      let ?r1 = "r\<lparr>currentIndex := currentIndex r + 1, events := events r @ [Lock, Unlock]\<rparr>"
      have i0: "registry_inv prints ?r0" and i1: "registry_inv prints ?r1"
        using inv by (simp_all add: registry_inv_events registry_inv_currentIndex)
      from sel have "next r = Inr (None, ?r0) \<or> (\<exists>u \<in> set (activeUrls r). next r = Inr (Some u, ?r1))"
        unfolding selects_def by blast
      then show "registry_inv prints (snd y)"
      proof (elim disjE bexE)
        assume "next r = Inr (None, ?r0)"
        with 1(2) nx have "y = (NoActiveServers, ?r0)" by simp
        with i0 show ?thesis by simp
      next
        fix u :: url
        assume u: "u \<in> set (activeUrls r)" and n: "next r = Inr (Some u, ?r1)"
        let ?r2 = "?r1\<lparr>events := events ?r1 @ [Do (str u)]\<rparr>"
        have i2: "registry_inv prints ?r2"
          using inv by (simp add: registry_inv_events registry_inv_currentIndex)
        show ?thesis
        proof (cases "ps (str u)")
          case False
          with 1(2) nx n have "y = (RequestError, ?r1)" by (simp add: NewRequest_def)
          with i1 show ?thesis by simp
        next
          case True
          show ?thesis
          proof (cases "nt (length (events ?r1)) (str u)")
            case TransportError
            with 1(2) nx n True have l: "loop next ps nt (RemoveURL u ?r2) = Some y"
              by (simp add: NewRequest_def client_Do_def)
            have "str u \<notin> str ` removedUrls r"
              using registry_invD(2) [OF inv u] by (metis imageE)
            then have "str u \<notin> str ` removedUrls ?r2" by simp
            moreover have "prints (str u) = str u"
              using u by (rule registry_invD(4) [OF inv])
            ultimately have "registry_inv prints (RemoveURL u ?r2)"
              using i2 by (intro RemoveURL_inv) simp_all
            with 1(1) [OF l] show ?thesis by simp
          next
            case (Response status body)
            show ?thesis
            proof (cases "status = 200")
              case True
              with 1(2) nx n \<open>ps (str u)\<close> Response have "snd y = ?r2"
                by (cases body) (auto simp: NewRequest_def client_Do_def)
              with i2 show ?thesis by simp
            next
              case False
              with 1(2) nx n True Response have "loop next ps nt ?r2 = Some y"
                by (simp add: NewRequest_def client_Do_def)
              from 1(1) [OF this] i2 show ?thesis by simp
            qed
          qed
        qed
      qed
    qed
  qed
  from this [of "next" parses net r "(out, r')"]
  show "dispatch_loop next parses net r = Some (out, r') \<Longrightarrow> registry_inv prints r \<Longrightarrow> registry_inv prints r'"
    by simp
qed

lemma reach_inv: "reach parses prints r \<Longrightarrow> registry_inv prints r"
proof (induction rule: reach.induct)
  case (reach_new r a backendUrls)
  then show ?case by (rule NewRoundRobinBalancer_inv)
next
  case (reach_next r res r')
  then show ?case by (blast intro: GetNextURL_inv)
next
  case (reach_remove r u)
  then show ?case by (blast intro: RemoveURL_inv)
next
  case (reach_restore r keys net)
  then show ?case by (simp add: CheckAndRestoreUrls_inv)
next
  case (reach_dispatch r net out r')
  then show ?case
    unfolding SendRequest_def by (blast intro: dispatch_loop_inv [OF selects_GetNextURL])
qed

subsection \<open>The counter and the rotation\<close>

lemma unat_plus_one: "(c :: 64 word) \<noteq> - 1 \<Longrightarrow> unat (c + 1) = unat c + 1"
proof -
  assume "c \<noteq> - 1"
  then have "1 + c \<noteq> 0" by (simp add: add_eq_0_iff)
  then have "unat (1 + c) = Suc (unat c)" by (rule unatSuc)
  then show ?thesis by (simp add: add.commute)
qed

lemma unat_plus_one_less:
  "unat (c :: 64 word) + 1 < 2 ^ 64 \<Longrightarrow> unat (c + 1) = unat c + 1"
  using unat_add_lem [of c 1] by simp

lemma next_calls_currentIndex:
  "activeUrls r \<noteq> [] \<Longrightarrow> currentIndex (snd (next_calls n r)) = currentIndex r + of_nat n"
  by (induction n arbitrary: r) (simp_all add: GetNextURL_nonempty)

lemma next_calls_frame:
  "activeUrls (snd (next_calls n r)) = activeUrls r \<and> removedUrls (snd (next_calls n r)) = removedUrls r"
proof (induction n arbitrary: r)
  case 0
  show ?case by simp
next
  case (Suc n)
  show ?case
  proof (cases "activeUrls r = []")
    case True
    with Suc [of "r\<lparr>events := events r @ [Lock, Unlock]\<rparr>"] show ?thesis
      by (simp add: GetNextURL_empty)
  next
    case False
    with Suc [of "r\<lparr>currentIndex := currentIndex r + 1, events := events r @ [Lock, Unlock]\<rparr>"]
    show ?thesis by (simp add: GetNextURL_nonempty)
  qed
qed

lemma at_max_fields:
  "activeUrls at_max = [\<lparr>addr = 10, str = ''http://localhost:81''\<rparr>,
                      \<lparr>addr = 11, str = ''http://localhost:82''\<rparr>,
                      \<lparr>addr = 12, str = ''http://localhost:83''\<rparr>]"
  "removedUrls at_max = {}" "currentIndex at_max = 18446744073709551615"
proof -
  have "activeUrls fresh \<noteq> []" by (simp add: fresh_fields)
  then have "currentIndex at_max = currentIndex fresh + of_nat 18446744073709551615"
    unfolding at_max_def by (rule next_calls_currentIndex)
  then show "currentIndex at_max = 18446744073709551615"
    by (simp add: fresh_fields)
  show "activeUrls at_max = [\<lparr>addr = 10, str = ''http://localhost:81''\<rparr>,
                      \<lparr>addr = 11, str = ''http://localhost:82''\<rparr>,
                      \<lparr>addr = 12, str = ''http://localhost:83''\<rparr>]"
    "removedUrls at_max = {}"
    unfolding at_max_def by (simp_all only: next_calls_frame fresh_fields)
qed

lemma next_calls_order:
  "activeUrls r \<noteq> [] \<Longrightarrow> unat (currentIndex r) + n \<le> 2 ^ 64 \<Longrightarrow>
   fst (next_calls n r) =
     map (\<lambda>j. Some (activeUrls r ! ((unat (currentIndex r) + j) mod length (activeUrls r)))) [0..<n]"
proof (induction n arbitrary: r)
  case 0
  show ?case by simp
next
  case (Suc n)
  let ?r1 = "r\<lparr>currentIndex := currentIndex r + 1, events := events r @ [Lock, Unlock]\<rparr>"
  have "fst (next_calls n ?r1) =
     map (\<lambda>j. Some (activeUrls r ! ((unat (currentIndex r) + Suc j) mod length (activeUrls r)))) [0..<n]"
  proof (cases n)
    case 0
    then show ?thesis by simp
  next
    case (Suc m)
    have u: "unat (currentIndex r + 1) = unat (currentIndex r) + 1"
      using Suc.prems(2) Suc by (intro unat_plus_one_less) simp
    have "fst (next_calls n ?r1) =
       map (\<lambda>j. Some (activeUrls ?r1 ! ((unat (currentIndex ?r1) + j) mod length (activeUrls ?r1)))) [0..<n]"
      using Suc.prems u by (intro Suc.IH) simp_all
    then show ?thesis by (simp add: u)
  qed
  then show ?case
    using Suc.prems(1) by (simp add: GetNextURL_nonempty map_upt_Suc del: upt_Suc)
qed

lemma mod_hit:
  assumes "i < k"
  shows "(Suc (M + k - 1 - i) mod k = 0) = (M mod k = i)"
proof -
  have e: "Suc (M + k - 1 - i) = M + k - i" using assms by simp
  have "(Suc (M + k - 1 - i) mod k = 0) = (k dvd (M + k - i))"
    by (simp only: e mod_eq_0_iff_dvd)
  also have "\<dots> = ((M + k) mod k = i mod k)"
    using mod_eq_dvd_iff_nat [of i "M + k" k] assms by simp
  also have "\<dots> = (M mod k = i)" using assms by simp
  finally show ?thesis .
qed

lemma count_mod_upto:
  "i < k \<Longrightarrow> length (filter (\<lambda>m. m mod k = i) [0..<M]) = (M + k - 1 - i) div k"
proof (induction M)
  case 0
  then show ?case by simp
next
  case (Suc M)
  have e: "Suc M + k - 1 - i = Suc (M + k - 1 - i)" using Suc.prems by simp
  have "(Suc M + k - 1 - i) div k =
      (if M mod k = i then Suc ((M + k - 1 - i) div k) else (M + k - 1 - i) div k)"
    by (simp only: e div_Suc mod_hit [OF Suc.prems])
  moreover have "length (filter (\<lambda>m. m mod k = i) [0..<Suc M]) =
      (if M mod k = i then Suc ((M + k - 1 - i) div k) else (M + k - 1 - i) div k)"
    using Suc.IH [OF Suc.prems] by simp
  ultimately show ?case by (simp only:)
qed

lemma count_mod_window:
  assumes "i < k"
  shows "length (filter (\<lambda>j. (c + j) mod k = i) [0..<N]) =
     (c + N + k - 1 - i) div k - (c + k - 1 - i) div k"
proof -
  have "[0..<c + N] = [0..<c] @ [c..<c + N]"
    by (rule upt_add_eq_append) simp
  moreover have "[c..<c + N] = map (\<lambda>j. c + j) [0..<N]"
    using map_add_upt [of c N] by (simp only: add.commute [of c])
  ultimately have "filter (\<lambda>m. m mod k = i) [0..<c + N] =
      filter (\<lambda>m. m mod k = i) [0..<c] @ map (\<lambda>j. c + j) (filter (\<lambda>j. (c + j) mod k = i) [0..<N])"
    by (simp only: filter_append filter_map comp_def)
  then have "length (filter (\<lambda>m. m mod k = i) [0..<c + N]) =
      length (filter (\<lambda>m. m mod k = i) [0..<c]) + length (filter (\<lambda>j. (c + j) mod k = i) [0..<N])"
    by (simp only: length_append length_map)
  then have "(c + N + k - 1 - i) div k =
      (c + k - 1 - i) div k + length (filter (\<lambda>j. (c + j) mod k = i) [0..<N])"
    by (simp only: count_mod_upto [OF assms])
  then show ?thesis by arith
qed

lemma window_lower:
  "N div k \<le> (a + N) div k - a div (k::nat)"
proof -
  have "(a + N) div k = a div k + N div k + (a mod k + N mod k) div k"
    by (rule div_add1_eq)
  then show ?thesis by arith
qed

lemma window_upper:
  assumes "0 < (k::nat)"
  shows "(a + N) div k - a div k \<le> (N + k - 1) div k"
proof -
  have 1: "(a + N) div k = a div k + N div k + (a mod k + N mod k) div k"
    by (rule div_add1_eq)
  have "a mod k < k" using assms by simp
  then have "a mod k + N mod k \<le> N mod k + (k - 1)" by arith
  then have 2: "(a mod k + N mod k) div k \<le> (N mod k + (k - 1)) div k"
    by (rule div_le_mono)
  have "(N + (k - 1)) div k = N div k + (k - 1) div k + (N mod k + (k - 1) mod k) div k"
    by (rule div_add1_eq)
  moreover have "(k - 1) div k = 0" "(k - 1) mod k = k - 1" "N + (k - 1) = N + k - 1"
    using assms by simp_all
  ultimately have 3: "(N + k - 1) div k = N div k + (N mod k + (k - 1)) div k"
    by simp
  show ?thesis using 1 2 3 by arith
qed

lemma times_returned_cycle:
  assumes d: "distinct (map str A)" and i: "i < length A"
  shows "times_returned (A ! i) (map (\<lambda>j. Some (A ! ((c + j) mod length A))) [0..<N]) =
     length (filter (\<lambda>j. (c + j) mod length A = i) [0..<N])"
proof -
  have "\<And>m. m < length A \<Longrightarrow> (str (A ! m) = str (A ! i)) = (m = i)"
    using nth_eq_iff_index_eq [OF d, of _ i] i by simp
  moreover have "0 < length A" using i by (cases A) simp_all
  then have "\<And>j. (c + j) mod length A < length A" by simp
  ultimately have "\<And>j. (str (A ! ((c + j) mod length A)) = str (A ! i)) = ((c + j) mod length A = i)"
    by blast
  then show ?thesis
    by (simp add: times_returned_def filter_map comp_def)
qed

section \<open>The claims\<close>

text \<open>
  C1, as amended. When the request to the selected endpoint is answered with a status
  other than 200, no copy of the dispatcher calls \<^verbatim>\<open>RemoveURL\<close> for it. The older
  \<^verbatim>\<open>sendRequest\<close> (main.go lines 240 to 267) then returns. \<^verbatim>\<open>SendRequest\<close> of
  loadbalance.go and \<^verbatim>\<open>sendRequest\<close> of main.go lines 93 to 129 close the body and go
  round the loop: the call continues as a dispatch on the registry as
  \<^verbatim>\<open>GetNextURL\<close> left it (active and removed unchanged), which selects the next endpoint.
\<close>

theorem C1_non_success_status:
  assumes "activeUrls r \<noteq> []" and "status \<noteq> 200"
    and "u = activeUrls r ! (unat (currentIndex r) mod length (activeUrls r))"
    and "u' = activeUrls r ! (unat (currentIndex r + 1) mod length (activeUrls r))"
  shows "(parses (str u) \<and> net (length (events r) + 2) (str u) = Response status body \<longrightarrow>
       SendRequest parses net r =
         SendRequest parses net
           (r\<lparr>currentIndex := currentIndex r + 1,
               events := events r @ [Lock, Unlock, Do (str u)]\<rparr>))
     \<and> (parses (str u') \<and> net (length (events r) + 2) (str u') = Response status body \<longrightarrow>
       sendRequest parses net r =
         sendRequest parses net
           (r\<lparr>currentIndex := currentIndex r + 1,
               events := events r @ [Lock, Unlock, Do (str u')]\<rparr>)
       \<and> sendRequest_old parses net r =
         (NonSuccessStatus status,
          r\<lparr>currentIndex := currentIndex r + 1,
              events := events r @ [Lock, Unlock, Do (str u')]\<rparr>))"
proof (intro conjI impI; elim conjE)
  let ?r1 = "r\<lparr>currentIndex := currentIndex r + 1, events := events r @ [Lock, Unlock]\<rparr>"
  {
    assume p: "parses (str u)" and n: "net (length (events r) + 2) (str u) = Response status body"
    have g: "GetNextURL r = Inr (Some u, ?r1)"
      using assms(1,3) by (simp add: GetNextURL_nonempty)
    from n have n': "net (length (events ?r1)) (str u) = Response status body" by simp
    show "SendRequest parses net r =
         SendRequest parses net
           (r\<lparr>currentIndex := currentIndex r + 1,
               events := events r @ [Lock, Unlock, Do (str u)]\<rparr>)"
      unfolding SendRequest_def
      using dispatch_loop_non200 [of GetNextURL r u ?r1 parses net status body, OF g p n' assms(2)]
      by simp
  }
  {
    assume p: "parses (str u')" and n: "net (length (events r) + 2) (str u') = Response status body"
    have g: "GetNextURL_main r = Inr (Some u', ?r1)"
      using assms(1,4) by (simp add: GetNextURL_main_nonempty)
    from n have n': "net (length (events ?r1)) (str u') = Response status body" by simp
    show "sendRequest parses net r =
         sendRequest parses net
           (r\<lparr>currentIndex := currentIndex r + 1,
               events := events r @ [Lock, Unlock, Do (str u')]\<rparr>)"
      unfolding sendRequest_def
      using dispatch_loop_non200 [of GetNextURL_main r u' ?r1 parses net status body, OF g p n' assms(2)]
      by simp
    show "sendRequest_old parses net r =
         (NonSuccessStatus status,
          r\<lparr>currentIndex := currentIndex r + 1,
              events := events r @ [Lock, Unlock, Do (str u')]\<rparr>)"
      using g p n' assms(2) by (simp add: sendRequest_old_def NewRequest_def client_Do_def)
  }
qed

theorem C1_non_success_status_witness:
  "SendRequest all_parse net_500 fresh =
     SendRequest all_parse net_500
       (fresh\<lparr>currentIndex := 1, events := [Lock, Unlock, Do ''http://localhost:81'']\<rparr>)
   \<and> sendRequest all_parse net_500 fresh =
     sendRequest all_parse net_500
       (fresh\<lparr>currentIndex := 1, events := [Lock, Unlock, Do ''http://localhost:82'']\<rparr>)
   \<and> sendRequest_old all_parse net_500 fresh =
     (NonSuccessStatus 500,
      fresh\<lparr>currentIndex := 1, events := [Lock, Unlock, Do ''http://localhost:82'']\<rparr>)"
proof -
  have a: "activeUrls fresh \<noteq> []" "(500::int) \<noteq> 200"
    "\<lparr>addr = 10, str = ''http://localhost:81''\<rparr> =
       activeUrls fresh ! (unat (currentIndex fresh) mod length (activeUrls fresh))"
    "\<lparr>addr = 11, str = ''http://localhost:82''\<rparr> =
       activeUrls fresh ! (unat (currentIndex fresh + 1) mod length (activeUrls fresh))"
    by (simp_all add: fresh_fields)
  have p: "all_parse s" "net_500 t s = Response 500 (Some [])" for s t
    by (simp_all add: all_parse_def net_500_def)
  from C1_non_success_status [OF a, of all_parse net_500 "Some []"] p
  show ?thesis by (simp only: fresh_fields simp_thms append_Nil add_0 url.simps) 
qed

text \<open>
  C1 as stated fails for \<^verbatim>\<open>SendRequest\<close>: with the first request answered 500 and the
  next one 200, one call sends a request to the first backend and then one to the
  second, and reports the second's body.
\<close>

theorem C1_counterexample:
  "SendRequest all_parse net_500_then_ok fresh =
     Some (Responded ''mock response'',
           fresh\<lparr>currentIndex := 2,
                 events := [Lock, Unlock, Do ''http://localhost:81'',
                            Lock, Unlock, Do ''http://localhost:82'']\<rparr>)"
  unfolding SendRequest_def
  by (subst dispatch_loop.simps, subst dispatch_loop.simps)
     (simp add: fresh_eq GetNextURL_nonempty NewRequest_def client_Do_def all_parse_def
        net_500_then_ok_def)

text \<open>
  C2, as amended. Start from a freshly constructed registry whose entries print as
  pairwise different strings that \<^verbatim>\<open>url.Parse\<close> reproduces. After every sequence of
  \<^verbatim>\<open>GetNextURL\<close>, \<^verbatim>\<open>RemoveURL\<close>, \<^verbatim>\<open>CheckAndRestoreUrls\<close> and returning \<^verbatim>\<open>SendRequest\<close>
  calls in which \<^verbatim>\<open>RemoveURL\<close> is only given endpoints that print as a string
  \<^verbatim>\<open>url.Parse\<close> reproduces, and never a second object for a string that the removed map
  already holds, the active sequence has no two string-equal entries and no active entry
  is string-equal to a removed one.
\<close>

theorem C2_invariant: "reach parses prints r \<Longrightarrow> registry_ok r"
  using reach_inv [of parses prints r] by (simp add: registry_inv_def)

theorem C2_invariant_witness:
  "reach all_parse go_prints
     (CheckAndRestoreUrls all_parse go_prints net_ok [u82] (RemoveURL u82 fresh))
   \<and> registry_ok (CheckAndRestoreUrls all_parse go_prints net_ok [u82] (RemoveURL u82 fresh))"
proof -
  have "reach all_parse go_prints fresh"
    by (rule reach_new [of fresh all_parse go_prints 10 backends])
       (simp_all add: fresh_def [symmetric] fresh_fields stable_def go_prints_simps)
  then have "reach all_parse go_prints (RemoveURL u82 fresh)"
    by (rule reach_remove) (simp_all add: fresh_fields u82_def go_prints_simps)
  then have r: "reach all_parse go_prints
      (CheckAndRestoreUrls all_parse go_prints net_ok [u82] (RemoveURL u82 fresh))"
    by (rule reach_restore) (simp_all add: RemoveURL_fields fresh_fields)
  from r C2_invariant [OF r] show ?thesis by simp
qed

text \<open>
  C2 as stated fails, in two ways. The removed map is keyed by object: removing two
  objects for the same string (the caller's URL and a second parse of its text) makes
  two keys, and a restore pass with both probes answering 200 appends the string to the
  active sequence twice. And the restore pass appends the re-parsed URL: after
  \<^verbatim>\<open>RemoveURL\<close> of the first backend built with the scheme \<^verbatim>\<open>HTTP\<close>, which is
  string-equal to no entry, the pass appends a second \<^verbatim>\<open>http://localhost:81\<close>.
\<close>

theorem C2_counterexample:
  "\<not> registry_ok
      (CheckAndRestoreUrls all_parse go_prints net_ok [u81, u81_again]
         (RemoveURL u81_again
            (RemoveURL u81 (NewRoundRobinBalancer all_parse go_prints 10 [u81]))))
   \<and> map str (activeUrls
        (CheckAndRestoreUrls all_parse go_prints net_ok [u81_upper] (RemoveURL u81_upper fresh)))
      = [''http://localhost:81'', ''http://localhost:82'', ''http://localhost:83'',
         ''http://localhost:81'']
   \<and> \<not> registry_ok
      (CheckAndRestoreUrls all_parse go_prints net_ok [u81_upper] (RemoveURL u81_upper fresh))"
  by (simp add: registry_ok_def CheckAndRestoreUrls_def restore_body_def RemoveURL_def
      NewRoundRobinBalancer_def lock_Lock_def lock_Unlock_def client_Do_def NewRequest_def
      url_Parse_def all_parse_def net_ok_def u81_def u81_again_def u81_upper_def fresh_eq
      go_prints_simps)

text \<open>
  C3, as amended. \<^verbatim>\<open>RemoveURL\<close> with an endpoint that is string-equal to no active entry
  leaves the active sequence unchanged and makes the endpoint a key of the removed map,
  so the removed set is unchanged only when that very object is a key already. A restore
  pass visits the keys of the removed map and nothing else: what it appends to the
  active sequence are re-parsed copies of removed keys, which print as \<^verbatim>\<open>url.Parse\<close>
  makes the key's string print, and it adds nothing to the removed set.
\<close>

theorem C3_remove_absent:
  "(str u \<notin> str ` set (activeUrls r) \<longrightarrow>
      activeUrls (RemoveURL u r) = activeUrls r
      \<and> removedUrls (RemoveURL u r) = insert u (removedUrls r)
      \<and> (u \<in> removedUrls r \<longrightarrow> removedUrls (RemoveURL u r) = removedUrls r))
   \<and> (set keys = removedUrls r \<longrightarrow>
      (\<exists>new. activeUrls (CheckAndRestoreUrls parses prints net keys r) = activeUrls r @ new
         \<and> str ` set new \<subseteq> prints ` str ` removedUrls r)
      \<and> removedUrls (CheckAndRestoreUrls parses prints net keys r) \<subseteq> removedUrls r)"
  using CheckAndRestoreUrls_active [of parses prints net keys r]
    CheckAndRestoreUrls_removed [of parses prints net keys r]
  by (auto simp: RemoveURL_fields remove_first_absent)

theorem C3_remove_absent_witness:
  "str u84 \<notin> str ` set (activeUrls fresh)
   \<and> activeUrls (RemoveURL u84 fresh) = activeUrls fresh
   \<and> removedUrls (RemoveURL u84 fresh) = {u84}
   \<and> set [u84] = removedUrls (RemoveURL u84 fresh)
   \<and> removedUrls (CheckAndRestoreUrls all_parse go_prints net_down [u84] (RemoveURL u84 fresh))
        \<subseteq> {u84}"
  using C3_remove_absent [of u84 fresh "[]" all_parse go_prints net_down]
     C3_remove_absent [of u84 "RemoveURL u84 fresh" "[u84]" all_parse go_prints net_down]
  by (simp add: fresh_eq RemoveURL_fields u84_def)

text \<open>
  C3 as stated fails: an endpoint that never was in the registry becomes a key of the
  removed map, because \<^verbatim>\<open>RemoveURL\<close> stores its argument before it searches.
\<close>

theorem C3_counterexample:
  "str u84 \<notin> str ` set (activeUrls fresh)
   \<and> removedUrls fresh = {}
   \<and> removedUrls (RemoveURL u84 fresh) = {u84}"
  by (simp add: fresh_eq RemoveURL_fields u84_def)

text \<open>
  C4, the copies of main.go (lines 40 to 50 and 201 to 211): the counter is incremented
  first and the index is taken from the new value, so the first call on the registry of
  \<^verbatim>\<open>main\<close> returns the second backend, where the claim (and \<^verbatim>\<open>TestRoundRobinBalancer\<close>)
  say the first. The copy of loadbalance.go returns the first.
\<close>

theorem C4_main_copy_skips_first:
  "GetNextURL_main fresh =
     Inr (Some \<lparr>addr = 11, str = ''http://localhost:82''\<rparr>,
          fresh\<lparr>currentIndex := 1, events := [Lock, Unlock]\<rparr>)
   \<and> GetNextURL fresh =
     Inr (Some \<lparr>addr = 10, str = ''http://localhost:81''\<rparr>,
          fresh\<lparr>currentIndex := 1, events := [Lock, Unlock]\<rparr>)"
  by (simp add: fresh_eq GetNextURL_main_nonempty GetNextURL_nonempty)

text \<open>
  C5, the older copy of \<^verbatim>\<open>CheckAndRestoreUrls\<close> (main.go lines 226 to 238): the response
  is dropped and only the error is looked at, so a probe answered with status 500
  reinstates the endpoint. The copy of loadbalance.go (and of main.go lines 65 to 91)
  keeps it removed, as the claim says.
\<close>

theorem C5_old_copy_restores_on_500:
  "removedUrls (RemoveURL u82 fresh) = {u82}
   \<and> removedUrls (CheckAndRestoreUrls_old all_parse go_prints net_500 [u82] (RemoveURL u82 fresh)) = {}
   \<and> map str (activeUrls (CheckAndRestoreUrls_old all_parse go_prints net_500 [u82] (RemoveURL u82 fresh)))
       = [''http://localhost:81'', ''http://localhost:83'', ''http://localhost:82'']
   \<and> removedUrls (CheckAndRestoreUrls all_parse go_prints net_500 [u82] (RemoveURL u82 fresh)) = {u82}"
  by (simp add: fresh_eq CheckAndRestoreUrls_old_def CheckAndRestoreUrls_def restore_body_def
      restore_body_old_def RemoveURL_def lock_Lock_def lock_Unlock_def client_Do_def
      NewRequest_def url_Parse_def all_parse_def net_500_def u82_def go_prints_simps)

text \<open>
  C6, as amended. If from some moment \<open>B\<close> on the network never answers with a status
  other than 200 (so in particular if it only ever fails at the transport level or
  answers 200), one dispatch call returns, in both copies of the loop; and a transport
  failure removes the selected endpoint, which makes the active sequence one shorter.
\<close>

theorem C6_dispatch_terminates:
  assumes "\<forall>t s status body. B \<le> t \<longrightarrow> net t s = Response status body \<longrightarrow> status = 200"
  shows "(\<exists>res. SendRequest parses net r = Some res)
     \<and> (\<exists>res. sendRequest parses net r = Some res)
     \<and> (\<forall>u r1. GetNextURL r = Inr (Some u, r1) \<longrightarrow>
           Suc (length (activeUrls (RemoveURL u (snd (client_Do net (str u) r1)))))
             = length (activeUrls r))"
proof (intro conjI allI impI)
  from assms have a: "\<And>t s status body. B \<le> t \<Longrightarrow> net t s = Response status body \<Longrightarrow> status = 200"
    by blast
  show "\<exists>res. SendRequest parses net r = Some res" using a by (rule SendRequest_terminates)
  show "\<exists>res. sendRequest parses net r = Some res" using a by (rule sendRequest_terminates)
next
  fix u r1
  assume n: "GetNextURL r = Inr (Some u, r1)"
  then have ne: "activeUrls r \<noteq> []" by (auto simp: GetNextURL_empty)
  with n have "u \<in> set (activeUrls r)" "activeUrls r1 = activeUrls r"
    by (auto simp: GetNextURL_nonempty)
  then show "Suc (length (activeUrls (RemoveURL u (snd (client_Do net (str u) r1)))))
             = length (activeUrls r)"
    using length_remove_first [of u "activeUrls r"] by (simp add: RemoveURL_fields client_Do_def)
qed

theorem C6_dispatch_terminates_witness:
  "(\<exists>res. SendRequest all_parse net_down fresh = Some res)
   \<and> (\<exists>res. sendRequest all_parse net_down fresh = Some res)
   \<and> GetNextURL fresh = Inr (Some \<lparr>addr = 10, str = ''http://localhost:81''\<rparr>,
        fresh\<lparr>currentIndex := 1, events := [Lock, Unlock]\<rparr>)
   \<and> length (activeUrls (RemoveURL \<lparr>addr = 10, str = ''http://localhost:81''\<rparr>
        (snd (client_Do net_down ''http://localhost:81''
           (fresh\<lparr>currentIndex := 1, events := [Lock, Unlock]\<rparr>))))) = 2"
proof -
  have h: "\<forall>t s status body. 0 \<le> t \<longrightarrow> net_down t s = Response status body \<longrightarrow> status = 200"
    by (simp add: net_down_def)
  have g: "GetNextURL fresh = Inr (Some \<lparr>addr = 10, str = ''http://localhost:81''\<rparr>,
        fresh\<lparr>currentIndex := 1, events := [Lock, Unlock]\<rparr>)"
    by (simp add: fresh_eq GetNextURL_nonempty)
  from C6_dispatch_terminates [OF h, of all_parse fresh] g show ?thesis
    by (simp add: fresh_eq)
qed

text \<open>
  C6 as stated fails: a retry after a status other than 200 removes nothing, so with a
  network that answers every request with 500 the call on the registry of \<^verbatim>\<open>main\<close>
  never returns.
\<close>

theorem C6_counterexample:
  "SendRequest all_parse net_500 fresh = None"
  unfolding SendRequest_def
  by (rule dispatch_loop_diverges [OF selects_GetNextURL])
     (simp_all add: all_parse_def net_500_def fresh_eq)

text \<open>
  C7, as amended. For a non-empty active sequence of length \<open>K\<close> and \<open>N\<close> consecutive
  \<^verbatim>\<open>GetNextURL\<close> calls during which the 64-bit counter does not pass \<open>2 ^ 64\<close>, the calls
  return the entries in the cyclic order of the active sequence, starting at the entry
  the counter points to; and when the entries have pairwise different strings, each is
  returned at least \<open>N div K\<close> times and at most \<open>(N + K - 1) div K\<close> times.
\<close>

theorem C7_round_robin:
  assumes "activeUrls r \<noteq> []" and "unat (currentIndex r) + N \<le> 2 ^ 64"
  shows "fst (next_calls N r) =
       map (\<lambda>j. Some (activeUrls r ! ((unat (currentIndex r) + j) mod length (activeUrls r)))) [0..<N]
     \<and> (distinct (map str (activeUrls r)) \<longrightarrow>
         (\<forall>i < length (activeUrls r).
            N div length (activeUrls r) \<le> times_returned (activeUrls r ! i) (fst (next_calls N r))
            \<and> times_returned (activeUrls r ! i) (fst (next_calls N r))
                \<le> (N + length (activeUrls r) - 1) div length (activeUrls r)))"
proof (intro conjI impI allI)
  show o: "fst (next_calls N r) =
       map (\<lambda>j. Some (activeUrls r ! ((unat (currentIndex r) + j) mod length (activeUrls r)))) [0..<N]"
    using assms by (rule next_calls_order)
  fix i
  assume d: "distinct (map str (activeUrls r))" and i: "i < length (activeUrls r)"
  let ?k = "length (activeUrls r)" and ?c = "unat (currentIndex r)"
  have e: "?c + N + ?k - 1 - i = (?c + ?k - 1 - i) + N" using i by simp
  have t: "times_returned (activeUrls r ! i) (fst (next_calls N r)) =
      ((?c + ?k - 1 - i) + N) div ?k - (?c + ?k - 1 - i) div ?k"
    by (simp only: o times_returned_cycle [OF d i] count_mod_window [OF i] e)
  show "N div ?k \<le> times_returned (activeUrls r ! i) (fst (next_calls N r))"
    by (simp only: t window_lower)
  show "times_returned (activeUrls r ! i) (fst (next_calls N r)) \<le> (N + ?k - 1) div ?k"
    using assms(1) by (simp only: t) (rule window_upper, simp)
qed

theorem C7_round_robin_witness:
  "activeUrls fresh \<noteq> [] \<and> unat (currentIndex fresh) + 6 \<le> (2::nat) ^ 64
   \<and> distinct (map str (activeUrls fresh))
   \<and> map (map_option str) (fst (next_calls 6 fresh)) =
       [Some ''http://localhost:81'', Some ''http://localhost:82'', Some ''http://localhost:83'',
        Some ''http://localhost:81'', Some ''http://localhost:82'', Some ''http://localhost:83'']
   \<and> times_returned (activeUrls fresh ! 1) (fst (next_calls 6 fresh)) = 2"
proof -
  have a: "activeUrls fresh \<noteq> []" "unat (currentIndex fresh) + 6 \<le> (2::nat) ^ 64"
    "distinct (map str (activeUrls fresh))" "1 < length (activeUrls fresh)"
    by (simp_all add: fresh_eq)
  note t = C7_round_robin [OF a(1,2)]
  from t have o: "fst (next_calls 6 fresh) =
       map (\<lambda>j. Some (activeUrls fresh ! ((unat (currentIndex fresh) + j) mod length (activeUrls fresh)))) [0..<6]"
    by simp
  from t a(3,4) have
    "6 div length (activeUrls fresh) \<le> times_returned (activeUrls fresh ! 1) (fst (next_calls 6 fresh))"
    "times_returned (activeUrls fresh ! 1) (fst (next_calls 6 fresh))
       \<le> (6 + length (activeUrls fresh) - 1) div length (activeUrls fresh)"
    by blast+
  moreover have "length (activeUrls fresh) = 3" by (simp add: fresh_eq)
  ultimately have c: "times_returned (activeUrls fresh ! 1) (fst (next_calls 6 fresh)) = 2"
    by simp
  have "[0..<6] = [0, 1, 2, 3, 4, 5::nat]" by (simp add: upt_rec)
  with o have "map (map_option str) (fst (next_calls 6 fresh)) =
       [Some ''http://localhost:81'', Some ''http://localhost:82'', Some ''http://localhost:83'',
        Some ''http://localhost:81'', Some ''http://localhost:82'', Some ''http://localhost:83'']"
    by (simp add: fresh_eq)
  with a c show ?thesis by simp
qed

text \<open>
  C7 as stated fails when the counter wraps inside the window: \<open>2 ^ 64\<close> is not a
  multiple of 3, so on the registry of \<^verbatim>\<open>main\<close> after \<open>2 ^ 64 - 1\<close> calls the first
  endpoint is returned by the next call and again by the one after it, twice in two
  calls where the claim allows once.
\<close>

theorem C7_counterexample:
  "map (map_option str) (fst (next_calls 2 at_max)) =
     [Some ''http://localhost:81'', Some ''http://localhost:81'']
   \<and> times_returned (activeUrls at_max ! 0) (fst (next_calls 2 at_max)) = 2
   \<and> (2 + length (activeUrls at_max) - 1) div length (activeUrls at_max) = 1"
proof -
  have "next_calls 2 at_max = next_calls (Suc (Suc 0)) at_max"
    by (simp only: numeral_2_eq_2)
  then show ?thesis
    by (simp add: at_max_fields GetNextURL_nonempty times_returned_def)
qed

text \<open>
  C8, as amended. The counter is a \<^verbatim>\<open>uint64\<close>: a \<^verbatim>\<open>GetNextURL\<close> call on a non-empty
  active sequence adds one modulo \<open>2 ^ 64\<close>, which is one more than before unless the
  counter was \<open>2 ^ 64 - 1\<close>; a call on an empty active sequence, \<^verbatim>\<open>RemoveURL\<close> and
  \<^verbatim>\<open>CheckAndRestoreUrls\<close> leave it as it is.
\<close>

theorem C8_cursor:
  "(activeUrls r \<noteq> [] \<longrightarrow>
      (\<exists>u r'. GetNextURL r = Inr (Some u, r') \<and> currentIndex r' = currentIndex r + 1
         \<and> (currentIndex r \<noteq> - 1 \<longrightarrow> unat (currentIndex r') = unat (currentIndex r) + 1)))
   \<and> (activeUrls r = [] \<longrightarrow>
      (\<exists>r'. GetNextURL r = Inr (None, r') \<and> currentIndex r' = currentIndex r))
   \<and> currentIndex (RemoveURL u r) = currentIndex r
   \<and> currentIndex (CheckAndRestoreUrls parses prints net keys r) = currentIndex r"
  by (simp add: GetNextURL_empty GetNextURL_nonempty RemoveURL_fields CheckAndRestoreUrls_fields
      unat_plus_one)

theorem C8_cursor_witness:
  "activeUrls fresh \<noteq> [] \<and> currentIndex fresh \<noteq> - 1
   \<and> (\<exists>u r'. GetNextURL fresh = Inr (Some u, r') \<and> currentIndex r' = 1 \<and> unat (currentIndex r') = 1)
   \<and> activeUrls (NewRoundRobinBalancer all_parse go_prints 10 []) = []
   \<and> (\<exists>r'. GetNextURL (NewRoundRobinBalancer all_parse go_prints 10 []) = Inr (None, r') \<and> currentIndex r' = 0)"
  using C8_cursor [of fresh u81 all_parse go_prints net_ok "[]"]
    C8_cursor [of "NewRoundRobinBalancer all_parse go_prints 10 []" u81 all_parse go_prints net_ok "[]"]
  by (simp add: fresh_eq NewRoundRobinBalancer_def)

text \<open>
  C8 as stated fails at the largest \<^verbatim>\<open>uint64\<close>: on the registry of \<^verbatim>\<open>main\<close> after
  \<open>2 ^ 64 - 1\<close> calls the counter is \<open>2 ^ 64 - 1\<close>, and the next call wraps it to 0,
  which is a decrease.
\<close>

theorem C8_counterexample:
  "unat (currentIndex at_max) = 18446744073709551615
   \<and> GetNextURL at_max =
       Inr (Some \<lparr>addr = 10, str = ''http://localhost:81''\<rparr>,
            at_max\<lparr>currentIndex := 0, events := events at_max @ [Lock, Unlock]\<rparr>)"
  by (simp add: at_max_fields GetNextURL_nonempty)

text \<open>
  C9. \<^verbatim>\<open>GetNextURL\<close> never panics, in either copy: it returns for every registry, the
  result is nil exactly when the active sequence is empty, and otherwise the remainder
  and the index it computes are defined, the index being below the length.
\<close>

theorem C9_GetNextURL_total:
  "(\<exists>res r'. GetNextURL r = Inr (res, r') \<and> (res = None) = (activeUrls r = []))
   \<and> (\<exists>res r'. GetNextURL_main r = Inr (res, r') \<and> (res = None) = (activeUrls r = []))
   \<and> (activeUrls r \<noteq> [] \<longrightarrow>
        (\<exists>i. umod (currentIndex r) (length (activeUrls r)) = Inr i
           \<and> i < length (activeUrls r)
           \<and> slice_index (activeUrls r) i = Inr (activeUrls r ! i))
        \<and> (\<exists>i. umod (currentIndex r + 1) (length (activeUrls r)) = Inr i
           \<and> i < length (activeUrls r)
           \<and> slice_index (activeUrls r) i = Inr (activeUrls r ! i)))"
  by (cases "activeUrls r = []")
     (simp_all add: GetNextURL_empty GetNextURL_nonempty GetNextURL_main_empty
        GetNextURL_main_nonempty umod_def slice_index_def)

theorem C9_GetNextURL_total_witness:
  "activeUrls fresh \<noteq> []
   \<and> (\<exists>res r'. GetNextURL fresh = Inr (res, r') \<and> res \<noteq> None)
   \<and> (\<exists>res r'. GetNextURL_main fresh = Inr (res, r') \<and> res \<noteq> None)
   \<and> umod (currentIndex fresh) (length (activeUrls fresh)) = Inr 0
   \<and> slice_index (activeUrls fresh) 0 = Inr \<lparr>addr = 10, str = ''http://localhost:81''\<rparr>"
  using C9_GetNextURL_total [of fresh]
  by (simp add: fresh_eq umod_def slice_index_def)

text \<open>
  C10, as amended. \<^verbatim>\<open>GetNextURL\<close> and \<^verbatim>\<open>RemoveURL\<close> take the lock and release it with
  no round trip in between, and the dispatcher sends its requests while the lock is
  free. \<^verbatim>\<open>CheckAndRestoreUrls\<close> takes the lock on entry and releases it on return: every
  probe it sends, one per key whose string parses, is sent while the lock is held.
\<close>

theorem C10_lock_scope:
  "(GetNextURL r = Inr (res, r') \<longrightarrow> events r' = events r @ [Lock, Unlock])
   \<and> events (RemoveURL u r) = events r @ [Lock, Unlock]
   \<and> (SendRequest parses net r = Some (out, r'') \<longrightarrow>
        (\<exists>es. events r'' = events r @ es \<and> io_outside_lock False es))
   \<and> events (CheckAndRestoreUrls parses prints net keys r) =
        events r @ Lock # map Do (filter parses (map str keys)) @ [Unlock]
   \<and> (filter parses (map str keys) \<noteq> [] \<longrightarrow>
        \<not> io_outside_lock False (Lock # map Do (filter parses (map str keys)) @ [Unlock]))"
proof (intro conjI impI)
  show "events r' = events r @ [Lock, Unlock]" if "GetNextURL r = Inr (res, r')"
    using that by (cases "activeUrls r = []") (auto simp: GetNextURL_empty GetNextURL_nonempty)
  show "events (RemoveURL u r) = events r @ [Lock, Unlock]" by (simp add: RemoveURL_fields)
  show "\<exists>es. events r'' = events r @ es \<and> io_outside_lock False es"
    if "SendRequest parses net r = Some (out, r'')"
    using dispatch_loop_events [OF selects_GetNextURL, of parses net r out r''] that
    unfolding SendRequest_def by blast
  show "events (CheckAndRestoreUrls parses prints net keys r) =
        events r @ Lock # map Do (filter parses (map str keys)) @ [Unlock]"
    by (simp add: CheckAndRestoreUrls_fields)
  show "\<not> io_outside_lock False (Lock # map Do (filter parses (map str keys)) @ [Unlock])"
    if "filter parses (map str keys) \<noteq> []"
    using io_under_lock [OF that, of "[Unlock]"] by simp
qed

theorem C10_lock_scope_witness:
  "GetNextURL fresh = Inr (Some \<lparr>addr = 10, str = ''http://localhost:81''\<rparr>,
        fresh\<lparr>currentIndex := 1, events := [Lock, Unlock]\<rparr>)
   \<and> SendRequest all_parse net_ok fresh = Some (Responded ''mock response'',
        fresh\<lparr>currentIndex := 1, events := [Lock, Unlock, Do ''http://localhost:81'']\<rparr>)
   \<and> io_outside_lock False [Lock, Unlock, Do ''http://localhost:81'']
   \<and> filter all_parse (map str [u82]) \<noteq> []
   \<and> events (CheckAndRestoreUrls all_parse go_prints net_ok [u82] (RemoveURL u82 fresh)) =
        [Lock, Unlock, Lock, Do ''http://localhost:82'', Unlock]
   \<and> \<not> io_outside_lock False [Lock, Do ''http://localhost:82'', Unlock]"
proof -
  have g: "GetNextURL fresh = Inr (Some \<lparr>addr = 10, str = ''http://localhost:81''\<rparr>,
        fresh\<lparr>currentIndex := 1, events := [Lock, Unlock]\<rparr>)"
    by (simp add: fresh_eq GetNextURL_nonempty)
  have s: "SendRequest all_parse net_ok fresh = Some (Responded ''mock response'',
        fresh\<lparr>currentIndex := 1, events := [Lock, Unlock, Do ''http://localhost:81'']\<rparr>)"
    unfolding SendRequest_def
    by (subst dispatch_loop.simps)
       (simp add: fresh_eq GetNextURL_nonempty NewRequest_def client_Do_def all_parse_def net_ok_def)
  from C10_lock_scope [of fresh "Some \<lparr>addr = 10, str = ''http://localhost:81''\<rparr>"
      "fresh\<lparr>currentIndex := 1, events := [Lock, Unlock]\<rparr>" u82 all_parse net_ok
      "Responded ''mock response''"
      "fresh\<lparr>currentIndex := 1, events := [Lock, Unlock, Do ''http://localhost:81'']\<rparr>"
      go_prints "[u82]"]
    C10_lock_scope [of "RemoveURL u82 fresh" None fresh u82 all_parse net_ok NoActiveServers fresh
      go_prints "[u82]"]
    g s
  show ?thesis by (simp add: fresh_eq RemoveURL_fields all_parse_def u82_def)
qed

text \<open>
  C10 as stated fails: a restore pass over one removed endpoint sends its probe between
  \<open>Lock\<close> and \<open>Unlock\<close>.
\<close>

theorem C10_counterexample:
  "events (CheckAndRestoreUrls all_parse go_prints net_ok [u82] (RemoveURL u82 fresh)) =
     [Lock, Unlock, Lock, Do ''http://localhost:82'', Unlock]
   \<and> \<not> io_outside_lock False (events (CheckAndRestoreUrls all_parse go_prints net_ok [u82] (RemoveURL u82 fresh)))"
  by (simp add: CheckAndRestoreUrls_fields RemoveURL_fields fresh_eq all_parse_def u82_def)

end
